theory Spec2Isabelle
  imports Complex_Main "HOL-Library.AList"
begin

section \<open>Data model (backend/models.py)\<close>

text \<open>
  The pydantic models are mutable Python objects: the store keeps references to them,
  and the same object sits in a history deque, in the active-alarm list and in the hands
  of the caller. The embedding therefore has an explicit heap. An object is named by a
  reference; every class has its own heap (a map from references to field values), and
  list and deque objects live in a heap of sequences whose elements are references.
\<close>

type_synonym ref = nat

text \<open>A \<open>datetime\<close> is a point on a discrete time line.\<close>

type_synonym datetime = int

text \<open>Values of Python type \<open>Any\<close>; the store never inspects them.\<close>

typedecl any

datatype error = ValueError

datatype MachineStatus = RUNNING | IDLE | MAINTENANCE | ERROR | OFFLINE

datatype AlarmSeverity = LOW | MEDIUM | HIGH | CRITICAL | WARNING

datatype AlertType =
  FAULT_PREDICTION | ANOMALY_DETECTION | PERFORMANCE_DEGRADATION
  | MAINTENANCE_REQUIRED | SENSOR_DRIFT | VALVE_WEAR

record ProcessData =
  machine_id :: string
  timestamp :: datetime
  temperature :: real
  pressure :: real
  flow_rate :: real
  motor_speed :: real
  vibration :: real
  power_consumption :: real
  additional_params :: "(string \<rightharpoonup> any) option"

record StatusData =
  machine_id :: string
  timestamp :: datetime
  status :: MachineStatus
  health_score :: real
  uptime_percentage :: real
  last_maintenance :: "datetime option"
  next_maintenance :: "datetime option"
  operating_hours :: "real option"
  cycle_count :: "int option"
  efficiency :: "real option"
  availability :: "real option"

record ControlCommand =
  machine_id :: string
  command :: string
  parameters :: "string \<rightharpoonup> any"
  timestamp :: datetime
  user_id :: "string option"
  command_id :: "string option"
  status :: string
  response :: "string option"

record MLAlert =
  machine_id :: string
  timestamp :: datetime
  alert_type :: AlertType
  severity :: AlarmSeverity
  message :: string
  confidence :: real
  ttf_days :: "real option"
  mtbf_hours :: "real option"
  anomaly_score :: "real option"
  affected_components :: "string list option"
  recommended_actions :: "string list option"
  model_version :: "string option"
  features_used :: "(string \<rightharpoonup> any) option"

text \<open>
  \<open>AlarmData\<close> comes last, so that the unqualified field names \<open>machine_id\<close>,
  \<open>timestamp\<close>, \<open>severity\<close> and \<open>message\<close> are those of an alarm; the fields of
  the other classes are written qualified (\<open>ProcessData.machine_id\<close>).
\<close>

record AlarmData =
  machine_id :: string
  timestamp :: datetime
  alarm_id :: string
  severity :: AlarmSeverity
  message :: string
  acknowledged :: bool
  acknowledged_by :: "string option"
  acknowledged_at :: "datetime option"
  resolved :: bool
  resolved_at :: "datetime option"
  category :: "string option"
  source :: "string option"

section \<open>The store and the heap (backend/data_store.py)\<close>

text \<open>
  The first nine fields are the Python heap: one heap of objects per model class, the
  heap of list and deque objects and the heap of the dict objects that the accessors
  allocate, each of the two with its next free address. The other fields are the
  attributes of the \<open>DataStore\<close> object. A dict is an association list in insertion
  order, as a Python dict is; \<open>map_of\<close> looks a key up and \<open>AList.update\<close> assigns
  to a key (in place when the key exists, at the end otherwise). The eight dict
  attributes are bound by \<open>__init__\<close> and never bound again, so each of these dict
  objects is named by its attribute and its items are the field of that name. The lock
  is not modelled: every operation runs to completion inside it. \<open>machine_metadata\<close>
  is used only by the overview queries and is left out.
\<close>

record state =
  process_heap :: "ref \<Rightarrow> ProcessData"
  alarm_heap :: "ref \<Rightarrow> AlarmData"
  status_heap :: "ref \<Rightarrow> StatusData"
  ml_alert_heap :: "ref \<Rightarrow> MLAlert"
  command_heap :: "ref \<Rightarrow> ControlCommand"
  seq_heap :: "ref \<Rightarrow> ref list"
  next_seq :: ref
  dict_heap :: "ref \<Rightarrow> (string \<times> ref) list"
  next_dict :: ref
  max_history_size :: int
  process_data :: "(string \<times> ref) list"
  alarm_data :: "(string \<times> ref) list"
  status_data :: "(string \<times> ref) list"
  ml_alerts :: "(string \<times> ref) list"
  commands :: "(string \<times> ref) list"
  latest_process :: "(string \<times> ref) list"
  latest_status :: "(string \<times> ref) list"
  active_alarms :: "(string \<times> ref) list"

text \<open>\<open>DataStore.__init__\<close>, run in the heap of \<open>h\<close>: all dicts start empty.\<close>

definition DataStore_init :: "int \<Rightarrow> state \<Rightarrow> state" where
  "DataStore_init n h =
     h\<lparr>max_history_size := n, process_data := [], alarm_data := [], status_data := [],
       ml_alerts := [], commands := [], latest_process := [], latest_status := [],
       active_alarms := []\<rparr>"

subsection \<open>Lists, deques and defaultdicts\<close>

text \<open>Allocation of a new list or deque object with the given elements.\<close>

definition new_seq :: "ref list \<Rightarrow> state \<Rightarrow> ref \<times> state" where
  "new_seq xs s =
     (next_seq s, s\<lparr>seq_heap := (seq_heap s)(next_seq s := xs), next_seq := Suc (next_seq s)\<rparr>)"

text \<open>
  \<open>deque(maxlen=max_history_size)\<close>, the default factory of the five history dicts:
  a negative \<open>maxlen\<close> raises \<open>ValueError\<close>.
\<close>

definition new_deque :: "state \<Rightarrow> error + ref \<times> state" where
  "new_deque s = (if max_history_size s < 0 then Inl ValueError else Inr (new_seq [] s))"

text \<open>
  \<open>d[k]\<close> on a \<open>defaultdict\<close> of deques: a missing key calls the factory and stores
  its result under the key; when the factory raises, nothing is stored. The dict is
  given by its field \<open>get\<close> and the assignment \<open>put\<close> to that field.
\<close>

definition deque_getitem ::
  "(state \<Rightarrow> (string \<times> ref) list) \<Rightarrow> ((string \<times> ref) list \<Rightarrow> state \<Rightarrow> state)
    \<Rightarrow> state \<Rightarrow> string \<Rightarrow> error + ref \<times> state" where
  "deque_getitem get put s k =
     (case map_of (get s) k of
        Some q \<Rightarrow> Inr (q, s)
      | None \<Rightarrow>
          (case new_deque s of
             Inl e \<Rightarrow> Inl e
           | Inr (q, s') \<Rightarrow> Inr (q, put (AList.update k q (get s')) s')))"

text \<open>\<open>self.active_alarms[k]\<close>, a \<open>defaultdict(list)\<close>: a missing key is created.\<close>

definition active_alarms_getitem :: "state \<Rightarrow> string \<Rightarrow> ref \<times> state" where
  "active_alarms_getitem s k =
     (case map_of (active_alarms s) k of
        Some l \<Rightarrow> (l, s)
      | None \<Rightarrow>
          (let (l, s') = new_seq [] s
           in (l, s'\<lparr>active_alarms := AList.update k l (active_alarms s')\<rparr>)))"

text \<open>
  \<open>deque.append\<close> with a \<open>maxlen\<close>: the item goes to the right end, and when the deque
  is then longer than \<open>maxlen\<close> the leftmost item is discarded.
\<close>

definition append_maxlen :: "int \<Rightarrow> ref list \<Rightarrow> ref \<Rightarrow> ref list" where
  "append_maxlen n xs x = (let ys = xs @ [x] in if int (length ys) > n then tl ys else ys)"

definition deque_append :: "ref \<Rightarrow> ref \<Rightarrow> state \<Rightarrow> state" where
  "deque_append q x s =
     s\<lparr>seq_heap := (seq_heap s)(q := append_maxlen (max_history_size s) (seq_heap s q) x)\<rparr>"

definition list_append :: "ref \<Rightarrow> ref \<Rightarrow> state \<Rightarrow> state" where
  "list_append l x s = s\<lparr>seq_heap := (seq_heap s)(l := seq_heap s l @ [x])\<rparr>"

text \<open>
  \<open>list.remove(x)\<close> deletes the first item that is \<open>x\<close> itself or equal to it, and
  raises \<open>ValueError\<close> when there is none. Two pydantic models are equal when their
  fields are.
\<close>

fun py_remove :: "(ref \<Rightarrow> AlarmData) \<Rightarrow> ref \<Rightarrow> ref list \<Rightarrow> ref list option" where
  "py_remove h x [] = None"
| "py_remove h x (y # ys) =
     (if y = x \<or> h y = h x then Some ys else map_option ((#) y) (py_remove h x ys))"

definition list_remove :: "ref \<Rightarrow> ref \<Rightarrow> state \<Rightarrow> error + state" where
  "list_remove l x s =
     (case py_remove (alarm_heap s) x (seq_heap s l) of
        None \<Rightarrow> Inl ValueError
      | Some ys \<Rightarrow> Inr (s\<lparr>seq_heap := (seq_heap s)(l := ys)\<rparr>))"

text \<open>
  The loop \<open>for alarm in alarms: if alarm.alarm_id == alarm_id: ...; break\<close> (or
  \<open>return\<close>): the first alarm of the list with the given id, if any.
\<close>

fun first_with_id :: "(ref \<Rightarrow> AlarmData) \<Rightarrow> string \<Rightarrow> ref list \<Rightarrow> ref option" where
  "first_with_id h a [] = None"
| "first_with_id h a (x # xs) = (if alarm_id (h x) = a then Some x else first_with_id h a xs)"

subsection \<open>Ingestion\<close>

definition add_process_data :: "state \<Rightarrow> ref \<Rightarrow> error + state" where
  "add_process_data s data =
     (let m = ProcessData.machine_id (process_heap s data) in
      case deque_getitem process_data (\<lambda>d t. t\<lparr>process_data := d\<rparr>) s m of
        Inl e \<Rightarrow> Inl e
      | Inr (q, s1) \<Rightarrow>
          (let s2 = deque_append q data s1
           in Inr (s2\<lparr>latest_process := AList.update m data (latest_process s2)\<rparr>)))"

definition add_status_data :: "state \<Rightarrow> ref \<Rightarrow> error + state" where
  "add_status_data s data =
     (let m = StatusData.machine_id (status_heap s data) in
      case deque_getitem status_data (\<lambda>d t. t\<lparr>status_data := d\<rparr>) s m of
        Inl e \<Rightarrow> Inl e
      | Inr (q, s1) \<Rightarrow>
          (let s2 = deque_append q data s1
           in Inr (s2\<lparr>latest_status := AList.update m data (latest_status s2)\<rparr>)))"

definition add_ml_alert :: "state \<Rightarrow> ref \<Rightarrow> error + state" where
  "add_ml_alert s alert =
     (let m = MLAlert.machine_id (ml_alert_heap s alert) in
      case deque_getitem ml_alerts (\<lambda>d t. t\<lparr>ml_alerts := d\<rparr>) s m of
        Inl e \<Rightarrow> Inl e
      | Inr (q, s1) \<Rightarrow> Inr (deque_append q alert s1))"

definition add_command :: "state \<Rightarrow> ref \<Rightarrow> error + state" where
  "add_command s cmd =
     (let m = ControlCommand.machine_id (command_heap s cmd) in
      case deque_getitem commands (\<lambda>d t. t\<lparr>commands := d\<rparr>) s m of
        Inl e \<Rightarrow> Inl e
      | Inr (q, s1) \<Rightarrow> Inr (deque_append q cmd s1))"

text \<open>
  \<open>add_alarm_data\<close>: the event is appended to the alarm history; an unresolved event
  replaces the first active alarm with its id (or is added), a resolved event rebinds
  the machine's entry to a new list without the alarms of that id.
\<close>

definition add_alarm_data :: "state \<Rightarrow> ref \<Rightarrow> error + state" where
  "add_alarm_data s data =
     (let d = alarm_heap s data; m = machine_id d in
      case deque_getitem alarm_data (\<lambda>d t. t\<lparr>alarm_data := d\<rparr>) s m of
        Inl e \<Rightarrow> Inl e
      | Inr (q, s1) \<Rightarrow>
          (let s2 = deque_append q data s1 in
           if \<not> resolved d then
             (let (l, s3) = active_alarms_getitem s2 m in
              case first_with_id (alarm_heap s3) (alarm_id d) (seq_heap s3 l) of
                None \<Rightarrow> Inr (list_append l data s3)
              | Some existing_alarm \<Rightarrow>
                  (case list_remove l existing_alarm s3 of
                     Inl e \<Rightarrow> Inl e
                   | Inr s4 \<Rightarrow> Inr (list_append l data s4)))
           else
             (let (l, s3) = active_alarms_getitem s2 m;
                  (l', s4) = new_seq (filter (\<lambda>alarm. alarm_id (alarm_heap s3 alarm) \<noteq> alarm_id d)
                                        (seq_heap s3 l)) s3
              in Inr (s4\<lparr>active_alarms := AList.update m l' (active_alarms s4)\<rparr>))))"

subsection \<open>Alarm operations\<close>

text \<open>
  \<open>datetime.utcnow()\<close> is the argument \<open>now\<close>. \<open>user_id\<close> is stored by
  \<open>acknowledge_alarm\<close> and only logged by \<open>resolve_alarm\<close>.
\<close>

definition acknowledge_alarm ::
  "state \<Rightarrow> string \<Rightarrow> string \<Rightarrow> string \<Rightarrow> datetime \<Rightarrow> bool \<times> state" where
  "acknowledge_alarm s machine alarm user now =
     (let (l, s1) = active_alarms_getitem s machine in
      case first_with_id (alarm_heap s1) alarm (seq_heap s1 l) of
        None \<Rightarrow> (False, s1)
      | Some a \<Rightarrow>
          (True, s1\<lparr>alarm_heap := (alarm_heap s1)
             (a := (alarm_heap s1 a)\<lparr>acknowledged := True, acknowledged_by := Some user,
                                     acknowledged_at := Some now\<rparr>)\<rparr>))"

definition resolve_alarm ::
  "state \<Rightarrow> string \<Rightarrow> string \<Rightarrow> string \<Rightarrow> datetime \<Rightarrow> error + bool \<times> state" where
  "resolve_alarm s machine alarm user now =
     (let (l, s1) = active_alarms_getitem s machine in
      case first_with_id (alarm_heap s1) alarm (seq_heap s1 l) of
        None \<Rightarrow> Inr (False, s1)
      | Some a \<Rightarrow>
          (let s2 = s1\<lparr>alarm_heap := (alarm_heap s1)
                     (a := (alarm_heap s1 a)\<lparr>resolved := True, resolved_at := Some now\<rparr>)\<rparr>
           in case list_remove l a s2 of
                Inl e \<Rightarrow> Inl e
              | Inr s3 \<Rightarrow> Inr (True, s3)))"

subsection \<open>Snapshot accessors\<close>

text \<open>
  A reference to a dict object: one of the eight dicts of the store, named by its
  attribute, or a dict that an accessor has allocated, named by its address in
  \<open>dict_heap\<close>. \<open>dict_items\<close> reads the items of the dict a reference names.
\<close>

datatype attribute =
  Process_data | Alarm_data | Status_data | Ml_alerts | Commands
  | Latest_process | Latest_status | Active_alarms

datatype dict_ref = Attribute attribute | Allocated ref

fun attribute_items :: "attribute \<Rightarrow> state \<Rightarrow> (string \<times> ref) list" where
  "attribute_items Process_data s = process_data s"
| "attribute_items Alarm_data s = alarm_data s"
| "attribute_items Status_data s = status_data s"
| "attribute_items Ml_alerts s = ml_alerts s"
| "attribute_items Commands s = commands s"
| "attribute_items Latest_process s = latest_process s"
| "attribute_items Latest_status s = latest_status s"
| "attribute_items Active_alarms s = active_alarms s"

fun dict_items :: "state \<Rightarrow> dict_ref \<Rightarrow> (string \<times> ref) list" where
  "dict_items s (Attribute a) = attribute_items a s"
| "dict_items s (Allocated r) = dict_heap s r"

text \<open>Allocation of a new dict object with the given items.\<close>

definition new_dict :: "(string \<times> ref) list \<Rightarrow> state \<Rightarrow> dict_ref \<times> state" where
  "new_dict kvs s =
     (Allocated (next_dict s),
      s\<lparr>dict_heap := (dict_heap s)(next_dict s := kvs), next_dict := Suc (next_dict s)\<rparr>)"

text \<open>
  \<open>d.copy()\<close> allocates a new dict with the items of \<open>d\<close>: the keys, and the
  values that \<open>d\<close> holds, which are references. \<open>get_latest_process_data\<close> returns
  the copy, not \<open>self.latest_process\<close>. \<open>dict.get\<close> returns the stored object
  itself.
\<close>

definition dict_copy :: "dict_ref \<Rightarrow> state \<Rightarrow> dict_ref \<times> state" where
  "dict_copy d s = new_dict (dict_items s d) s"

definition get_latest_process_data :: "state \<Rightarrow> dict_ref \<times> state" where
  "get_latest_process_data s = dict_copy (Attribute Latest_process) s"

definition get_machine_process_data :: "state \<Rightarrow> string \<Rightarrow> ref option" where
  "get_machine_process_data s m = map_of (latest_process s) m"

text \<open>
  The slice \<open>xs[i:]\<close>: a negative \<open>i\<close> counts from the end, and an index out of
  range is clipped.
\<close>

definition py_slice_from :: "'a list \<Rightarrow> int \<Rightarrow> 'a list" where
  "py_slice_from xs i =
     (let n = int (length xs);
          j = (if i < 0 then max (n + i) 0 else min i n)
      in drop (nat j) xs)"

text \<open>
  \<open>history = list(self.process_data[machine_id])\<close> allocates a list, and so does the
  slice \<open>history[-limit:]\<close>, taken when \<open>limit\<close> is not zero. The accessor returns
  the reference of the list it hands out.
\<close>

definition get_process_history :: "state \<Rightarrow> string \<Rightarrow> int \<Rightarrow> error + ref \<times> state" where
  "get_process_history s m limit =
     (case deque_getitem process_data (\<lambda>d t. t\<lparr>process_data := d\<rparr>) s m of
        Inl e \<Rightarrow> Inl e
      | Inr (q, s1) \<Rightarrow>
          (let (history, s2) = new_seq (seq_heap s1 q) s1
           in if limit \<noteq> 0
              then Inr (new_seq (py_slice_from (seq_heap s2 history) (- limit)) s2)
              else Inr (history, s2)))"

definition get_alarm_history :: "state \<Rightarrow> string \<Rightarrow> int \<Rightarrow> error + ref \<times> state" where
  "get_alarm_history s m limit =
     (case deque_getitem alarm_data (\<lambda>d t. t\<lparr>alarm_data := d\<rparr>) s m of
        Inl e \<Rightarrow> Inl e
      | Inr (q, s1) \<Rightarrow>
          (let (history, s2) = new_seq (seq_heap s1 q) s1
           in if limit \<noteq> 0
              then Inr (new_seq (py_slice_from (seq_heap s2 history) (- limit)) s2)
              else Inr (history, s2)))"

text \<open>
  \<open>{k: v.copy() for k, v in self.active_alarms.items()}\<close>: the items are visited in
  insertion order, each list is copied into a new list, and the copy is stored under the
  key in the dict being built, which is a new dict object.
\<close>

fun copy_items ::
  "(string \<times> ref) list \<Rightarrow> (string \<times> ref) list \<Rightarrow> state \<Rightarrow> (string \<times> ref) list \<times> state" where
  "copy_items [] d s = (d, s)"
| "copy_items ((k, v) # kvs) d s =
     (let (v', s1) = new_seq (seq_heap s v) s in copy_items kvs (AList.update k v' d) s1)"

definition get_active_alarms :: "state \<Rightarrow> dict_ref \<times> state" where
  "get_active_alarms s = (let (d, s1) = copy_items (active_alarms s) [] s in new_dict d s1)"

definition get_machine_alarms :: "state \<Rightarrow> string \<Rightarrow> ref \<times> state" where
  "get_machine_alarms s m =
     (let (l, s1) = active_alarms_getitem s m in new_seq (seq_heap s1 l) s1)"

text \<open>
  \<open>get_machine_ml_alerts\<close>: the alerts of the last 24 hours; a \<open>datetime\<close> counts
  microseconds.
\<close>

definition get_machine_ml_alerts :: "state \<Rightarrow> string \<Rightarrow> datetime \<Rightarrow> error + ref \<times> state" where
  "get_machine_ml_alerts s m now =
     (case deque_getitem ml_alerts (\<lambda>d t. t\<lparr>ml_alerts := d\<rparr>) s m of
        Inl e \<Rightarrow> Inl e
      | Inr (q, s1) \<Rightarrow>
          (let (alerts, s2) = new_seq (seq_heap s1 q) s1
           in Inr (new_seq (filter (\<lambda>alert. MLAlert.timestamp (ml_alert_heap s2 alert)
                                        > now - 86400000000) (seq_heap s2 alerts)) s2)))"

subsection \<open>Pruning\<close>

text \<open>
  \<open>deque(xs, maxlen=n)\<close> keeps the last \<open>n\<close> items and raises \<open>ValueError\<close> for a
  negative \<open>n\<close>.
\<close>

definition new_deque_from :: "ref list \<Rightarrow> state \<Rightarrow> error + ref \<times> state" where
  "new_deque_from xs s =
     (if max_history_size s < 0 then Inl ValueError
      else Inr (new_seq (drop (length xs - nat (max_history_size s)) xs) s))"

text \<open>
  \<open>cleanup_old_data\<close>: \<open>cutoff_time\<close> is computed before the lock is taken and is
  the argument here. For every key of \<open>ml_alerts\<close> the list comprehension allocates a
  list, the deque is built from it, and the key is rebound to the deque.
\<close>

fun cleanup_keys :: "datetime \<Rightarrow> string list \<Rightarrow> state \<Rightarrow> error + state" where
  "cleanup_keys cutoff_time [] s = Inr s"
| "cleanup_keys cutoff_time (m # ms) s =
     (case deque_getitem ml_alerts (\<lambda>d t. t\<lparr>ml_alerts := d\<rparr>) s m of
        Inl e \<Rightarrow> Inl e
      | Inr (q, s1) \<Rightarrow>
          (let (fresh, s2) = new_seq (filter (\<lambda>alert. MLAlert.timestamp (ml_alert_heap s1 alert)
                                               > cutoff_time) (seq_heap s1 q)) s1
           in case new_deque_from (seq_heap s2 fresh) s2 of
                Inl e \<Rightarrow> Inl e
              | Inr (q', s3) \<Rightarrow>
                  cleanup_keys cutoff_time ms (s3\<lparr>ml_alerts := AList.update m q' (ml_alerts s3)\<rparr>)))"

definition cleanup_old_data :: "state \<Rightarrow> datetime \<Rightarrow> error + state" where
  "cleanup_old_data s cutoff_time = cleanup_keys cutoff_time (map fst (ml_alerts s)) s"

section \<open>Broadcast fan-out (backend/websocket_manager.py)\<close>

text \<open>
  A \<open>WebSocket\<close> object is compared and hashed by identity, so a connection is its
  address. \<open>connection_info\<close> is a dict from connections to their two timestamps.
\<close>

type_synonym WebSocket = nat

record info =
  connected_at :: datetime
  last_ping :: datetime

record WebSocketManager =
  active_connections :: "WebSocket list"
  connection_info :: "(WebSocket \<times> info) list"

text \<open>
  What a raised object is to \<open>except Exception\<close>: an instance of \<open>Exception\<close>, or
  a \<open>BaseException\<close> that is none (a cancelled task, a keyboard interrupt).
\<close>

datatype py_exception = Exception | BaseException

text \<open>
  The outcome of the body of the \<open>try\<close> for one connection, that is of
  \<open>await connection.send_text(json.dumps(message, default=str))\<close>: the text was sent
  (and \<open>datetime.utcnow()\<close> then read the given time), or something was raised.
\<close>

datatype outcome = Sent datetime | Raised py_exception

definition disconnect :: "WebSocketManager \<Rightarrow> WebSocket \<Rightarrow> WebSocketManager" where
  "disconnect M websocket =
     (let M1 = (if websocket \<in> set (active_connections M)
                then M\<lparr>active_connections := remove1 websocket (active_connections M)\<rparr>
                else M)
      in if map_of (connection_info M1) websocket \<noteq> None
         then M1\<lparr>connection_info := AList.delete websocket (connection_info M1)\<rparr>
         else M1)"

text \<open>\<open>if connection in self.connection_info: self.connection_info[connection]["last_ping"] = ...\<close>\<close>

definition update_last_ping :: "WebSocket \<Rightarrow> datetime \<Rightarrow> WebSocketManager \<Rightarrow> WebSocketManager" where
  "update_last_ping connection t M =
     (case map_of (connection_info M) connection of
        None \<Rightarrow> M
      | Some i \<Rightarrow> M\<lparr>connection_info := AList.update connection (i\<lparr>last_ping := t\<rparr>) (connection_info M)\<rparr>)"

text \<open>
  The loop over \<open>connections_copy\<close>. Its state is the manager, the list
  \<open>disconnected_connections\<close> and the deliveries made so far (which connection was sent
  which message). An \<open>Exception\<close> is caught and the connection noted; anything else
  leaves the loop and the function.
\<close>

fun send_all ::
  "(WebSocket \<Rightarrow> outcome) \<Rightarrow> 'msg \<Rightarrow> WebSocket list \<Rightarrow> WebSocketManager \<Rightarrow> WebSocket list
    \<Rightarrow> (WebSocket \<times> 'msg) list
    \<Rightarrow> py_exception option \<times> WebSocketManager \<times> WebSocket list \<times> (WebSocket \<times> 'msg) list" where
  "send_all net msg [] M disconnected sent = (None, M, disconnected, sent)"
| "send_all net msg (connection # cs) M disconnected sent =
     (case net connection of
        Sent t \<Rightarrow>
          send_all net msg cs (update_last_ping connection t M) disconnected
            (sent @ [(connection, msg)])
      | Raised Exception \<Rightarrow> send_all net msg cs M (disconnected @ [connection]) sent
      | Raised BaseException \<Rightarrow> (Some BaseException, M, disconnected, sent))"

text \<open>
  \<open>broadcast\<close> returns what it raised (\<open>None\<close> when it returns normally), the manager
  afterwards and the deliveries made.
\<close>

definition broadcast ::
  "(WebSocket \<Rightarrow> outcome) \<Rightarrow> 'msg \<Rightarrow> WebSocketManager
    \<Rightarrow> py_exception option \<times> WebSocketManager \<times> (WebSocket \<times> 'msg) list" where
  "broadcast net msg M =
     (if active_connections M = [] then (None, M, [])
      else
        (let connections_copy = active_connections M;
             (raised, M1, disconnected_connections, sent) =
                send_all net msg connections_copy M [] []
         in case raised of
              Some e \<Rightarrow> (Some e, M1, sent)
            | None \<Rightarrow> (None, fold (\<lambda>connection M'. disconnect M' connection)
                                  disconnected_connections M1, sent)))"

section \<open>Views of the store and its invariants\<close>

text \<open>The six dicts of list and deque objects, and the dict of each kind.\<close>

datatype kind = Process | Alarm | Status | Advisory | Command | Active

fun dict_of :: "kind \<Rightarrow> state \<Rightarrow> (string \<times> ref) list" where
  "dict_of Process s = process_data s"
| "dict_of Alarm s = alarm_data s"
| "dict_of Status s = status_data s"
| "dict_of Advisory s = ml_alerts s"
| "dict_of Command s = commands s"
| "dict_of Active s = active_alarms s"

fun put_dict :: "kind \<Rightarrow> (string \<times> ref) list \<Rightarrow> state \<Rightarrow> state" where
  "put_dict Process d s = s\<lparr>process_data := d\<rparr>"
| "put_dict Alarm d s = s\<lparr>alarm_data := d\<rparr>"
| "put_dict Status d s = s\<lparr>status_data := d\<rparr>"
| "put_dict Advisory d s = s\<lparr>ml_alerts := d\<rparr>"
| "put_dict Command d s = s\<lparr>commands := d\<rparr>"
| "put_dict Active d s = s\<lparr>active_alarms := d\<rparr>"

text \<open>
  What a machine's entry of a dict holds: \<open>None\<close> when the machine is no key of the
  dict, the elements of its list or deque otherwise. \<open>contents\<close> reads a missing entry
  as the empty sequence.
\<close>

definition entry :: "kind \<Rightarrow> state \<Rightarrow> string \<Rightarrow> ref list option" where
  "entry k s m = map_option (seq_heap s) (map_of (dict_of k s) m)"

definition contents :: "kind \<Rightarrow> state \<Rightarrow> string \<Rightarrow> ref list" where
  "contents k s m = (case entry k s m of None \<Rightarrow> [] | Some xs \<Rightarrow> xs)"

text \<open>
  The heap is well formed for the store: the list and deque objects the store holds are
  allocated, no two entries share one, and no dict has a key twice.
\<close>

definition well_formed :: "state \<Rightarrow> bool" where
  "well_formed s \<longleftrightarrow>
     (\<forall>k m r. map_of (dict_of k s) m = Some r \<longrightarrow> r < next_seq s) \<and>
     (\<forall>k m k' m' r. map_of (dict_of k s) m = Some r \<and> map_of (dict_of k' s) m' = Some r
        \<longrightarrow> k' = k \<and> m' = m) \<and>
     (\<forall>k. distinct (map fst (dict_of k s)))"

text \<open>No machine has two active alarms with one id.\<close>

definition unique_ids :: "state \<Rightarrow> bool" where
  "unique_ids s \<longleftrightarrow>
     (\<forall>m. distinct (map (\<lambda>a. alarm_id (alarm_heap s a)) (contents Active s m)))"

text \<open>Every history deque is within the capacity.\<close>

definition bounded :: "state \<Rightarrow> bool" where
  "bounded s \<longleftrightarrow>
     (\<forall>k m xs. k \<noteq> Active \<and> entry k s m = Some xs \<longrightarrow> int (length xs) \<le> max_history_size s)"

text \<open>Two steps on the heap that the operations are made of.\<close>

definition set_seq :: "ref \<Rightarrow> ref list \<Rightarrow> state \<Rightarrow> state" where
  "set_seq r xs s = s\<lparr>seq_heap := (seq_heap s)(r := xs)\<rparr>"

definition bind_fresh :: "kind \<Rightarrow> string \<Rightarrow> ref list \<Rightarrow> state \<Rightarrow> state" where
  "bind_fresh k m xs s =
     put_dict k (AList.update m (next_seq s) (dict_of k s)) (snd (new_seq xs s))"

text \<open>The active alarms of a machine after an alarm event, from those before.\<close>

definition active_after :: "(ref \<Rightarrow> AlarmData) \<Rightarrow> ref \<Rightarrow> ref list \<Rightarrow> ref list" where
  "active_after h data old =
     (if \<not> resolved (h data)
      then (case first_with_id h (alarm_id (h data)) old of
              None \<Rightarrow> old @ [data]
            | Some e \<Rightarrow> remove1 e old @ [data])
      else filter (\<lambda>a. alarm_id (h a) \<noteq> alarm_id (h data)) old)"

definition same_objects :: "state \<Rightarrow> state \<Rightarrow> bool" where
  "same_objects s s' \<longleftrightarrow>
     alarm_heap s' = alarm_heap s \<and> process_heap s' = process_heap s \<and>
     status_heap s' = status_heap s \<and> ml_alert_heap s' = ml_alert_heap s \<and>
     command_heap s' = command_heap s \<and> max_history_size s' = max_history_size s"

text \<open>A sequence of calls that all return: the store after the last one.\<close>

fun ingest :: "(state \<Rightarrow> ref \<Rightarrow> error + state) \<Rightarrow> state \<Rightarrow> ref list \<Rightarrow> error + state" where
  "ingest add s [] = Inr s"
| "ingest add s (x # xs) = (case add s x of Inl e \<Rightarrow> Inl e | Inr s' \<Rightarrow> ingest add s' xs)"

definition unheld :: "state \<Rightarrow> ref \<Rightarrow> bool" where
  "unheld s l \<longleftrightarrow> (\<forall>k m. map_of (dict_of k s) m \<noteq> Some l)"

definition extends :: "state \<Rightarrow> state \<Rightarrow> bool" where
  "extends s s' \<longleftrightarrow>
     (\<forall>k. dict_of k s' = dict_of k s) \<and> (\<forall>r < next_seq s. seq_heap s' r = seq_heap s r) \<and>
     next_seq s \<le> next_seq s' \<and> same_objects s s' \<and>
     latest_process s' = latest_process s \<and> latest_status s' = latest_status s"

text \<open>The items of the dict that an accessor has returned, read in the state it returned.\<close>

definition returned_items :: "dict_ref \<times> state \<Rightarrow> (string \<times> ref) list" where
  "returned_items r = dict_items (snd r) (fst r)"

text \<open>
  The machine has an empty list of active alarms in the store, and is a key with an
  empty list in what \<open>get_active_alarms\<close> returns.
\<close>

definition listed_empty :: "string \<Rightarrow> state \<Rightarrow> bool" where
  "listed_empty m s \<longleftrightarrow>
     entry Active s m = Some [] \<and>
     (\<exists>l. map_of (returned_items (get_active_alarms s)) m = Some l \<and>
          seq_heap (snd (get_active_alarms s)) l = [])"





text \<open>
  The calls on a store that change it or the heap of sequences and dicts, and the store
  after a call. A call that raises leaves the store as it was: the only raise of these
  operations in a well-formed store is the \<open>ValueError\<close> of a deque with a negative
  \<open>maxlen\<close>, and it comes before any assignment.
\<close>

datatype call =
  Add_process_data ref
  | Add_alarm_data ref
  | Add_status_data ref
  | Add_ml_alert ref
  | Add_command ref
  | Acknowledge_alarm string string string datetime
  | Resolve_alarm string string string datetime
  | Cleanup_old_data datetime
  | Get_process_history string int
  | Get_alarm_history string int
  | Get_active_alarms
  | Get_latest_process_data
  | Get_machine_alarms string
  | Get_machine_ml_alerts string datetime

definition after :: "state \<Rightarrow> error + state \<Rightarrow> state" where
  "after s r = (case r of Inl e \<Rightarrow> s | Inr s' \<Rightarrow> s')"

definition after_result :: "state \<Rightarrow> error + 'a \<times> state \<Rightarrow> state" where
  "after_result s r = (case r of Inl e \<Rightarrow> s | Inr (x, s') \<Rightarrow> s')"

fun exec :: "state \<Rightarrow> call \<Rightarrow> state" where
  "exec s (Add_process_data r) = after s (add_process_data s r)"
| "exec s (Add_alarm_data r) = after s (add_alarm_data s r)"
| "exec s (Add_status_data r) = after s (add_status_data s r)"
| "exec s (Add_ml_alert r) = after s (add_ml_alert s r)"
| "exec s (Add_command r) = after s (add_command s r)"
| "exec s (Acknowledge_alarm m a u t) = snd (acknowledge_alarm s m a u t)"
| "exec s (Resolve_alarm m a u t) = after_result s (resolve_alarm s m a u t)"
| "exec s (Cleanup_old_data t) = after s (cleanup_old_data s t)"
| "exec s (Get_process_history m n) = after_result s (get_process_history s m n)"
| "exec s (Get_alarm_history m n) = after_result s (get_alarm_history s m n)"
| "exec s Get_active_alarms = snd (get_active_alarms s)"
| "exec s Get_latest_process_data = snd (get_latest_process_data s)"
| "exec s (Get_machine_alarms m) = snd (get_machine_alarms s m)"
| "exec s (Get_machine_ml_alerts m t) = after_result s (get_machine_ml_alerts s m t)"

definition run :: "state \<Rightarrow> call list \<Rightarrow> state" where
  "run s cs = foldl exec s cs"

definition store_inv :: "state \<Rightarrow> bool" where
  "store_inv s \<longleftrightarrow> well_formed s \<and> unique_ids s \<and> bounded s"

text \<open>The ingestion operation of a kind of history, and the machine of the ingested object.\<close>

fun add :: "kind \<Rightarrow> state \<Rightarrow> ref \<Rightarrow> error + state" where
  "add Process = add_process_data"
| "add Alarm = add_alarm_data"
| "add Status = add_status_data"
| "add Advisory = add_ml_alert"
| "add Command = add_command"
| "add Active = add_alarm_data"

fun machine_of :: "kind \<Rightarrow> state \<Rightarrow> ref \<Rightarrow> string" where
  "machine_of Process s r = ProcessData.machine_id (process_heap s r)"
| "machine_of Alarm s r = machine_id (alarm_heap s r)"
| "machine_of Status s r = StatusData.machine_id (status_heap s r)"
| "machine_of Advisory s r = MLAlert.machine_id (ml_alert_heap s r)"
| "machine_of Command s r = ControlCommand.machine_id (command_heap s r)"
| "machine_of Active s r = machine_id (alarm_heap s r)"

text \<open>The delivery to a connection succeeds.\<close>

fun delivered :: "outcome \<Rightarrow> bool" where
  "delivered (Sent t) = True"
| "delivered (Raised e) = False"

section \<open>Example objects and stores\<close>

definition alarm_A1 :: AlarmData where
  "alarm_A1 =
     \<lparr>machine_id = ''M1'', timestamp = 100, alarm_id = ''A1'', severity = CRITICAL,
      message = ''overheat'', acknowledged = False, acknowledged_by = None,
      acknowledged_at = None, resolved = False, resolved_at = None, category = None,
      source = None\<rparr>"

definition sample_M1 :: "datetime \<Rightarrow> real \<Rightarrow> ProcessData" where
  "sample_M1 t temp =
     \<lparr>ProcessData.machine_id = ''M1'', timestamp = t, temperature = temp, pressure = 1,
      flow_rate = 10, motor_speed = 1500, vibration = 0, power_consumption = 100,
      additional_params = None\<rparr>"

definition status_M1 :: StatusData where
  "status_M1 =
     \<lparr>StatusData.machine_id = ''M1'', timestamp = 100, status = RUNNING, health_score = 90,
      uptime_percentage = 99, last_maintenance = None, next_maintenance = None,
      operating_hours = None, cycle_count = None, efficiency = None, availability = None\<rparr>"

definition command_M1 :: ControlCommand where
  "command_M1 =
     \<lparr>ControlCommand.machine_id = ''M1'', command = ''stop'', parameters = Map.empty,
      timestamp = 100, user_id = None, command_id = None, status = ''pending'',
      response = None\<rparr>"

definition alert_M1 :: MLAlert where
  "alert_M1 =
     \<lparr>MLAlert.machine_id = ''M1'', timestamp = 100, alert_type = FAULT_PREDICTION,
      severity = MEDIUM, message = ''bearing wear'', confidence = 1, ttf_days = None,
      mtbf_hours = None, anomaly_score = None, affected_components = None,
      recommended_actions = None, model_version = None, features_used = None\<rparr>"

definition example_heap :: state where
  "example_heap =
     \<lparr>process_heap = (\<lambda>r. if r = 0 then sample_M1 1 72 else sample_M1 2 75),
      alarm_heap = (\<lambda>r. if r = 0 then alarm_A1
                         else if r = 1 then alarm_A1\<lparr>severity := WARNING, message := ''cooling''\<rparr>
                         else alarm_A1\<lparr>resolved := True\<rparr>),
      status_heap = (\<lambda>r. status_M1),
      ml_alert_heap = (\<lambda>r. alert_M1),
      command_heap = (\<lambda>r. command_M1),
      seq_heap = (\<lambda>r. []), next_seq = 0, dict_heap = (\<lambda>r. []), next_dict = 0,
      max_history_size = 0,
      process_data = [], alarm_data = [], status_data = [], ml_alerts = [], commands = [],
      latest_process = [], latest_status = [], active_alarms = []\<rparr>"

definition store_open :: state where
  "store_open =
     example_heap\<lparr>seq_heap := (\<lambda>r. [])(0 := [0], 1 := [0]),
       next_seq := 2, max_history_size := 1000,
       alarm_data := [(''M1'', 0)], active_alarms := [(''M1'', 1)]\<rparr>"

definition store_samples :: state where
  "store_samples =
     example_heap\<lparr>seq_heap := (\<lambda>r. [])(0 := [0, 1]),
       next_seq := 1, max_history_size := 1000,
       process_data := [(''M1'', 0)], latest_process := [(''M1'', 1)]\<rparr>"

definition three_clients :: WebSocketManager where
  "three_clients =
     \<lparr>active_connections = [1, 2, 3],
      connection_info = [(1, \<lparr>connected_at = 10, last_ping = 10\<rparr>),
                         (2, \<lparr>connected_at = 20, last_ping = 20\<rparr>),
                         (3, \<lparr>connected_at = 30, last_ping = 30\<rparr>)]\<rparr>"

definition client2_closed :: "WebSocket \<Rightarrow> outcome" where
  "client2_closed c = (if c = 2 then Raised Exception else Sent 500)"

text \<open>The heap of the examples with a second alarm of \<open>M1\<close>, \<open>A2\<close>, at address 1.\<close>

definition two_alarms_heap :: state where
  "two_alarms_heap =
     example_heap\<lparr>alarm_heap := (alarm_heap example_heap)
       (1 := alarm_A1\<lparr>alarm_id := ''A2'', message := ''low pressure''\<rparr>)\<rparr>"

text \<open>
  A store of capacity 0 after the event of the alarm \<open>A1\<close>, and a store of capacity 1
  after the events of the alarms \<open>A1\<close> and \<open>A2\<close> of \<open>M1\<close>.
\<close>

definition unarchived_store :: state where
  "unarchived_store = run (DataStore_init 0 example_heap) [Add_alarm_data 0]"

definition evicted_store :: state where
  "evicted_store = run (DataStore_init 1 two_alarms_heap) [Add_alarm_data 0, Add_alarm_data 1]"

text \<open>The store after \<open>op1\<close> has acknowledged, and has resolved, the alarm \<open>A1\<close> of \<open>M1\<close>.\<close>

definition acknowledged_by_op1 :: "state \<Rightarrow> state" where
  "acknowledged_by_op1 s = snd (acknowledge_alarm s ''M1'' ''A1'' ''op1'' 200)"

definition resolved_by_op1 :: "state \<Rightarrow> state" where
  "resolved_by_op1 s = after_result s (resolve_alarm s ''M1'' ''A1'' ''op1'' 300)"

section \<open>Properties\<close>

subsection \<open>The heap and the views\<close>

lemma dict_of_heap_upd [simp]:
  "dict_of k (s\<lparr>seq_heap := f\<rparr>) = dict_of k s"
  "dict_of k (s\<lparr>next_seq := n\<rparr>) = dict_of k s"
  "dict_of k (s\<lparr>alarm_heap := h\<rparr>) = dict_of k s"
  "dict_of k (s\<lparr>max_history_size := c\<rparr>) = dict_of k s"
  "dict_of k (s\<lparr>latest_process := lp\<rparr>) = dict_of k s"
  "dict_of k (s\<lparr>latest_status := ls\<rparr>) = dict_of k s"
  "dict_of k (s\<lparr>dict_heap := dh\<rparr>) = dict_of k s"
  "dict_of k (s\<lparr>next_dict := nd\<rparr>) = dict_of k s"
  by (cases k; simp)+

lemma dict_of_dict_upd [simp]:
  "dict_of k (s\<lparr>process_data := d\<rparr>) = (if k = Process then d else dict_of k s)"
  "dict_of k (s\<lparr>alarm_data := d\<rparr>) = (if k = Alarm then d else dict_of k s)"
  "dict_of k (s\<lparr>status_data := d\<rparr>) = (if k = Status then d else dict_of k s)"
  "dict_of k (s\<lparr>ml_alerts := d\<rparr>) = (if k = Advisory then d else dict_of k s)"
  "dict_of k (s\<lparr>commands := d\<rparr>) = (if k = Command then d else dict_of k s)"
  "dict_of k (s\<lparr>active_alarms := d\<rparr>) = (if k = Active then d else dict_of k s)"
  by (cases k; simp)+

lemma dict_of_init [simp]: "dict_of k (DataStore_init n h) = []"
  by (cases k; simp add: DataStore_init_def)

lemma wf_init: "well_formed (DataStore_init n h)"
  by (simp add: well_formed_def)

lemma wf_boundD: "well_formed s \<Longrightarrow> map_of (dict_of k s) m = Some r \<Longrightarrow> r < next_seq s"
  unfolding well_formed_def by blast

lemma wf_sepD:
  "well_formed s \<Longrightarrow> map_of (dict_of k s) m = Some r \<Longrightarrow> map_of (dict_of k' s) m' = Some r
    \<Longrightarrow> k' = k \<and> m' = m"
  unfolding well_formed_def by blast

lemma wf_keysD: "well_formed s \<Longrightarrow> distinct (map fst (dict_of k s))"
  unfolding well_formed_def by blast

lemma put_dict_sel [simp]:
  "dict_of k' (put_dict k d s) = (if k' = k then d else dict_of k' s)"
  "seq_heap (put_dict k d s) = seq_heap s"
  "next_seq (put_dict k d s) = next_seq s"
  "alarm_heap (put_dict k d s) = alarm_heap s"
  "process_heap (put_dict k d s) = process_heap s"
  "status_heap (put_dict k d s) = status_heap s"
  "ml_alert_heap (put_dict k d s) = ml_alert_heap s"
  "command_heap (put_dict k d s) = command_heap s"
  "max_history_size (put_dict k d s) = max_history_size s"
  "latest_process (put_dict k d s) = latest_process s"
  "latest_status (put_dict k d s) = latest_status s"
  by (cases k; cases k'; simp)+

lemma new_seq_sel [simp]:
  "fst (new_seq xs s) = next_seq s"
  "dict_of k (snd (new_seq xs s)) = dict_of k s"
  "seq_heap (snd (new_seq xs s)) = (seq_heap s)(next_seq s := xs)"
  "next_seq (snd (new_seq xs s)) = Suc (next_seq s)"
  "alarm_heap (snd (new_seq xs s)) = alarm_heap s"
  "process_heap (snd (new_seq xs s)) = process_heap s"
  "status_heap (snd (new_seq xs s)) = status_heap s"
  "ml_alert_heap (snd (new_seq xs s)) = ml_alert_heap s"
  "command_heap (snd (new_seq xs s)) = command_heap s"
  "max_history_size (snd (new_seq xs s)) = max_history_size s"
  "latest_process (snd (new_seq xs s)) = latest_process s"
  "latest_status (snd (new_seq xs s)) = latest_status s"
  by (simp_all add: new_seq_def)

lemma set_seq_sel [simp]:
  "dict_of k (set_seq r xs s) = dict_of k s"
  "seq_heap (set_seq r xs s) = (seq_heap s)(r := xs)"
  "next_seq (set_seq r xs s) = next_seq s"
  "alarm_heap (set_seq r xs s) = alarm_heap s"
  "process_heap (set_seq r xs s) = process_heap s"
  "status_heap (set_seq r xs s) = status_heap s"
  "ml_alert_heap (set_seq r xs s) = ml_alert_heap s"
  "command_heap (set_seq r xs s) = command_heap s"
  "max_history_size (set_seq r xs s) = max_history_size s"
  "latest_process (set_seq r xs s) = latest_process s"
  "latest_status (set_seq r xs s) = latest_status s"
  by (simp_all add: set_seq_def)

lemma new_dict_sel [simp]:
  "fst (new_dict kvs s) = Allocated (next_dict s)"
  "dict_of k (snd (new_dict kvs s)) = dict_of k s"
  "dict_heap (snd (new_dict kvs s)) = (dict_heap s)(next_dict s := kvs)"
  "seq_heap (snd (new_dict kvs s)) = seq_heap s"
  "next_seq (snd (new_dict kvs s)) = next_seq s"
  "alarm_heap (snd (new_dict kvs s)) = alarm_heap s"
  "process_heap (snd (new_dict kvs s)) = process_heap s"
  "status_heap (snd (new_dict kvs s)) = status_heap s"
  "ml_alert_heap (snd (new_dict kvs s)) = ml_alert_heap s"
  "command_heap (snd (new_dict kvs s)) = command_heap s"
  "max_history_size (snd (new_dict kvs s)) = max_history_size s"
  "latest_process (snd (new_dict kvs s)) = latest_process s"
  "latest_status (snd (new_dict kvs s)) = latest_status s"
  by (simp_all add: new_dict_def)

lemma returned_items_new_dict [simp]: "returned_items (new_dict kvs s) = kvs"
  by (simp add: returned_items_def new_dict_def)

lemma wf_new_seq: "well_formed s \<Longrightarrow> well_formed (snd (new_seq xs s))"
  unfolding well_formed_def by (auto simp: less_Suc_eq)

lemma entry_new_seq: "well_formed s \<Longrightarrow> entry k (snd (new_seq xs s)) m = entry k s m"
  by (auto simp: entry_def map_option_case split: option.splits dest: wf_boundD)

lemma wf_set_seq: "well_formed (set_seq r xs s) = well_formed s"
  by (simp add: well_formed_def)

lemma entry_set_seq:
  "well_formed s \<Longrightarrow> map_of (dict_of k s) m = Some r \<Longrightarrow>
   entry k' (set_seq r xs s) m' = (if k' = k \<and> m' = m then Some xs else entry k' s m')"
  by (auto simp: entry_def map_option_case split: option.splits dest: wf_sepD)

lemma wf_bind_fresh: "well_formed s \<Longrightarrow> well_formed (bind_fresh k m xs s)"
  unfolding well_formed_def bind_fresh_def
  apply (intro conjI)
    apply (auto simp: update_conv' less_Suc_eq split: if_splits simp del: map_of_eq_Some_iff)[1]
   apply (simp add: update_conv' split: if_splits del: map_of_eq_Some_iff)
   apply (metis less_irrefl)
  apply (simp add: distinct_update)
  done

lemma entry_bind_fresh:
  "well_formed s \<Longrightarrow>
   entry k' (bind_fresh k m xs s) m' = (if k' = k \<and> m' = m then Some xs else entry k' s m')"
  by (auto simp: entry_def bind_fresh_def update_conv' map_option_case split: option.splits dest: wf_boundD)

lemma lookup_bind_fresh:
  "map_of (dict_of k (bind_fresh k m xs s)) m = Some (next_seq s)"
  by (simp add: bind_fresh_def update_conv')

lemma bind_fresh_sel [simp]:
  "seq_heap (bind_fresh k m xs s) = (seq_heap s)(next_seq s := xs)"
  "next_seq (bind_fresh k m xs s) = Suc (next_seq s)"
  "alarm_heap (bind_fresh k m xs s) = alarm_heap s"
  "process_heap (bind_fresh k m xs s) = process_heap s"
  "status_heap (bind_fresh k m xs s) = status_heap s"
  "ml_alert_heap (bind_fresh k m xs s) = ml_alert_heap s"
  "command_heap (bind_fresh k m xs s) = command_heap s"
  "max_history_size (bind_fresh k m xs s) = max_history_size s"
  "latest_process (bind_fresh k m xs s) = latest_process s"
  "latest_status (bind_fresh k m xs s) = latest_status s"
  by (simp_all add: bind_fresh_def)

lemma contents_alt:
  "contents k s m = (case map_of (dict_of k s) m of None \<Rightarrow> [] | Some r \<Rightarrow> seq_heap s r)"
  by (simp add: contents_def entry_def split: option.splits)

lemma active_alarms_getitem_eq:
  "active_alarms_getitem s m =
     (case map_of (dict_of Active s) m of
        Some l \<Rightarrow> (l, s)
      | None \<Rightarrow> (next_seq s, bind_fresh Active m [] s))"
  by (simp add: active_alarms_getitem_def bind_fresh_def new_seq_def split: option.splits)

lemma active_alarms_getitem_spec:
  assumes "well_formed s" and "active_alarms_getitem s m = (l, s1)"
  shows "well_formed s1"
    and "map_of (dict_of Active s1) m = Some l"
    and "seq_heap s1 l = contents Active s m"
    and "entry k s1 m' =
           (if k = Active \<and> m' = m \<and> entry Active s m = None then Some [] else entry k s m')"
    and "contents k s1 m' = contents k s m'"
    and "alarm_heap s1 = alarm_heap s"
    and "max_history_size s1 = max_history_size s"
proof -
  show e: "entry k s1 m' =
           (if k = Active \<and> m' = m \<and> entry Active s m = None then Some [] else entry k s m')"
    using assms
    by (auto simp: active_alarms_getitem_eq entry_bind_fresh split: option.splits)
       (auto simp: entry_def)
  show "contents k s1 m' = contents k s m'"
    by (simp add: contents_def e)
  show "well_formed s1" "alarm_heap s1 = alarm_heap s" "max_history_size s1 = max_history_size s"
    using assms
    by (auto simp: active_alarms_getitem_eq wf_bind_fresh split: option.splits)
  show "map_of (dict_of Active s1) m = Some l" "seq_heap s1 l = contents Active s m"
    using assms
    by (auto simp: active_alarms_getitem_eq contents_alt bind_fresh_def update_conv'
        split: option.splits)
qed

lemma first_with_id_None:
  "first_with_id h a xs = None \<longleftrightarrow> (\<forall>x \<in> set xs. alarm_id (h x) \<noteq> a)"
  by (induction xs) auto

lemma first_with_id_SomeD:
  "first_with_id h a xs = Some x \<Longrightarrow> x \<in> set xs \<and> alarm_id (h x) = a"
  by (induction xs) (auto split: if_splits)

lemma first_with_id_cong:
  "(\<And>y. alarm_id (h' y) = alarm_id (h y)) \<Longrightarrow> first_with_id h' a xs = first_with_id h a xs"
  by (induction xs) auto

lemma py_remove_first:
  "first_with_id h a xs = Some x \<Longrightarrow> py_remove h x xs = Some (remove1 x xs)"
  by (induction xs) (auto split: if_splits dest: first_with_id_SomeD)

lemma remove1_unique_id:
  "distinct (map (\<lambda>y. alarm_id (h y)) xs) \<Longrightarrow> x \<in> set xs \<Longrightarrow>
   remove1 x xs = filter (\<lambda>y. alarm_id (h y) \<noteq> alarm_id (h x)) xs"
proof (induction xs)
  case Nil
  then show ?case by simp
next
  case (Cons y ys)
  show ?case
  proof (cases "y = x")
    case True
    with Cons.prems have "alarm_id (h x) \<notin> (\<lambda>z. alarm_id (h z)) ` set ys"
      by simp
    then have "\<forall>z \<in> set ys. alarm_id (h z) \<noteq> alarm_id (h x)"
      by (metis imageI)
    then have "filter (\<lambda>z. alarm_id (h z) \<noteq> alarm_id (h x)) ys = ys"
      by (simp add: filter_id_conv)
    with True show ?thesis by simp
  next
    case False
    with Cons show ?thesis by auto
  qed
qed

lemma alarm_heap_upd_views [simp]:
  "well_formed (s\<lparr>alarm_heap := h\<rparr>) = well_formed s"
  "entry k (s\<lparr>alarm_heap := h\<rparr>) m = entry k s m"
  "contents k (s\<lparr>alarm_heap := h\<rparr>) m = contents k s m"
  by (simp_all add: well_formed_def entry_def contents_def)

lemma contents_set_seq:
  "well_formed s \<Longrightarrow> map_of (dict_of k s) m = Some r \<Longrightarrow>
   contents k' (set_seq r xs s) m' = (if k' = k \<and> m' = m then xs else contents k' s m')"
  by (simp add: contents_def entry_set_seq)

lemma list_remove_eq:
  "list_remove l x s =
     (case py_remove (alarm_heap s) x (seq_heap s l) of
        None \<Rightarrow> Inl ValueError | Some ys \<Rightarrow> Inr (set_seq l ys s))"
  by (simp add: list_remove_def set_seq_def split: option.splits)

lemma resolve_alarm_absent:
  assumes "well_formed s" and "\<forall>a \<in> set (contents Active s m). alarm_id (alarm_heap s a) \<noteq> aid"
  shows "\<exists>s'. resolve_alarm s m aid u now = Inr (False, s') \<and> well_formed s' \<and>
           (\<forall>k m'. contents k s' m' = contents k s m') \<and>
           (\<forall>k m'. entry k s' m' =
              (if k = Active \<and> m' = m \<and> entry Active s m = None then Some [] else entry k s m')) \<and>
           alarm_heap s' = alarm_heap s \<and> max_history_size s' = max_history_size s"
proof -
  obtain l s1 where g: "active_alarms_getitem s m = (l, s1)"
    by (cases "active_alarms_getitem s m")
  note sp = active_alarms_getitem_spec [OF assms(1) g]
  have "first_with_id (alarm_heap s1) aid (seq_heap s1 l) = None"
    using assms(2) by (simp add: first_with_id_None sp)
  then have "resolve_alarm s m aid u now = Inr (False, s1)"
    by (simp add: resolve_alarm_def g)
  then show ?thesis using sp by simp
qed

lemma resolve_alarm_present:
  assumes "well_formed s" and "first_with_id (alarm_heap s) aid (contents Active s m) = Some a"
  shows "\<exists>s'. resolve_alarm s m aid u now = Inr (True, s') \<and> well_formed s' \<and>
           (\<forall>k m'. contents k s' m' =
               (if k = Active \<and> m' = m then remove1 a (contents Active s m) else contents k s m')) \<and>
           (\<forall>k m'. k \<noteq> Active \<longrightarrow> entry k s' m' = entry k s m') \<and>
           max_history_size s' = max_history_size s \<and>
           alarm_heap s' = (alarm_heap s)(a := (alarm_heap s a)\<lparr>resolved := True, resolved_at := Some now\<rparr>)"
proof -
  obtain l s1 where g: "active_alarms_getitem s m = (l, s1)"
    by (cases "active_alarms_getitem s m")
  note sp = active_alarms_getitem_spec [OF assms(1) g]
  define h' where "h' = (alarm_heap s)(a := (alarm_heap s a)\<lparr>resolved := True, resolved_at := Some now\<rparr>)"
  define s2 where "s2 = s1\<lparr>alarm_heap := h'\<rparr>"
  have f: "first_with_id (alarm_heap s1) aid (seq_heap s1 l) = Some a"
    using assms(2) by (simp add: sp)
  have "first_with_id h' aid (contents Active s m) =
        first_with_id (alarm_heap s) aid (contents Active s m)"
    by (rule first_with_id_cong) (simp add: h'_def)
  with assms(2) have "first_with_id h' aid (contents Active s m) = Some a"
    by simp
  then have r: "py_remove h' a (contents Active s m) = Some (remove1 a (contents Active s m))"
    by (rule py_remove_first)
  have wf2: "well_formed s2" and l2: "map_of (dict_of Active s2) m = Some l"
    using sp by (simp_all add: s2_def)
  have "list_remove l a s2 = Inr (set_seq l (remove1 a (contents Active s m)) s2)"
    using r by (simp add: list_remove_eq s2_def sp)
  then have "resolve_alarm s m aid u now =
      Inr (True, set_seq l (remove1 a (contents Active s m)) s2)"
    using f by (simp add: resolve_alarm_def g s2_def h'_def sp)
  moreover have "well_formed (set_seq l (remove1 a (contents Active s m)) s2)"
    using wf2 by (simp add: wf_set_seq)
  moreover have "contents k (set_seq l (remove1 a (contents Active s m)) s2) m' =
      (if k = Active \<and> m' = m then remove1 a (contents Active s m) else contents k s m')" for k m'
    using contents_set_seq [OF wf2 l2] by (simp add: s2_def sp)
  moreover have "k \<noteq> Active \<Longrightarrow>
      entry k (set_seq l (remove1 a (contents Active s m)) s2) m' = entry k s m'" for k m'
    using entry_set_seq [OF wf2 l2] by (simp add: s2_def sp)
  moreover have "alarm_heap (set_seq l (remove1 a (contents Active s m)) s2) = h'"
    "max_history_size (set_seq l (remove1 a (contents Active s m)) s2) = max_history_size s"
    by (simp_all add: s2_def sp)
  ultimately show ?thesis unfolding h'_def by blast
qed

lemma contents_bind_fresh:
  "well_formed s \<Longrightarrow>
   contents k' (bind_fresh k m xs s) m' = (if k' = k \<and> m' = m then xs else contents k' s m')"
  by (simp add: contents_def entry_bind_fresh)

lemma contents_new_seq: "well_formed s \<Longrightarrow> contents k (snd (new_seq xs s)) m = contents k s m"
  by (simp add: contents_def entry_new_seq)

lemma deque_getitem_eq:
  assumes "\<And>t. get t = dict_of k t" and "\<And>d t. put d t = put_dict k d t"
  shows "deque_getitem get put s m =
     (case map_of (dict_of k s) m of
        Some q \<Rightarrow> Inr (q, s)
      | None \<Rightarrow> if max_history_size s < 0 then Inl ValueError
                else Inr (next_seq s, bind_fresh k m [] s))"
  by (simp add: deque_getitem_def new_deque_def bind_fresh_def new_seq_def assms
      split: option.splits)

lemma deque_getitem_spec:
  assumes "\<And>t. get t = dict_of k t" and "\<And>d t. put d t = put_dict k d t"
    and "well_formed s" and "0 \<le> max_history_size s"
  shows "\<exists>q s1. deque_getitem get put s m = Inr (q, s1) \<and> well_formed s1 \<and>
           map_of (dict_of k s1) m = Some q \<and> seq_heap s1 q = contents k s m \<and>
           (\<forall>k' m'. contents k' s1 m' = contents k' s m') \<and>
           (\<forall>k' m'. entry k' s1 m' =
              (if k' = k \<and> m' = m \<and> entry k s m = None then Some [] else entry k' s m')) \<and>
           alarm_heap s1 = alarm_heap s \<and> process_heap s1 = process_heap s \<and>
           status_heap s1 = status_heap s \<and> ml_alert_heap s1 = ml_alert_heap s \<and>
           command_heap s1 = command_heap s \<and> max_history_size s1 = max_history_size s \<and>
           latest_process s1 = latest_process s \<and> latest_status s1 = latest_status s"
proof (cases "map_of (dict_of k s) m")
  case None
  then have "deque_getitem get put s m = Inr (next_seq s, bind_fresh k m [] s)"
    using assms(4) by (simp add: deque_getitem_eq [OF assms(1,2)])
  moreover have "entry k s m = None" "contents k s m = []"
    using None by (simp_all add: entry_def contents_def)
  ultimately show ?thesis
    using assms(3)
    by (simp add: wf_bind_fresh lookup_bind_fresh contents_bind_fresh entry_bind_fresh)
next
  case (Some q)
  then have "deque_getitem get put s m = Inr (q, s)"
    by (simp add: deque_getitem_eq [OF assms(1,2)])
  moreover have "entry k s m \<noteq> None" "contents k s m = seq_heap s q"
    using Some by (simp_all add: entry_def contents_def)
  ultimately show ?thesis
    using assms(3) Some by simp
qed

lemma deque_append_eq:
  "deque_append q x s = set_seq q (append_maxlen (max_history_size s) (seq_heap s q) x) s"
  by (simp add: deque_append_def set_seq_def)

lemma list_append_eq: "list_append l x s = set_seq l (seq_heap s l @ [x]) s"
  by (simp add: list_append_def set_seq_def)

lemma add_alarm_data_spec:
  fixes s :: state and data :: ref
  assumes "well_formed s" and "0 \<le> max_history_size s"
  defines "m \<equiv> machine_id (alarm_heap s data)"
  shows "\<exists>s'. add_alarm_data s data = Inr s' \<and> well_formed s' \<and> same_objects s s' \<and>
           latest_process s' = latest_process s \<and> latest_status s' = latest_status s \<and>
           (\<forall>k m'. contents k s' m' =
              (if k = Alarm \<and> m' = m
               then append_maxlen (max_history_size s) (contents Alarm s m) data
               else if k = Active \<and> m' = m
               then active_after (alarm_heap s) data (contents Active s m)
               else contents k s m')) \<and>
           (\<forall>k m'. k \<noteq> Active \<longrightarrow> entry k s' m' =
              (if k = Alarm \<and> m' = m
               then Some (append_maxlen (max_history_size s) (contents Alarm s m) data)
               else entry k s m'))"
proof -
  let ?put = "\<lambda>d t. t\<lparr>alarm_data := d\<rparr>"
  obtain q s1 where g1: "deque_getitem alarm_data ?put s m = Inr (q, s1)" and wf1: "well_formed s1"
    and q1: "map_of (dict_of Alarm s1) m = Some q" and h1: "seq_heap s1 q = contents Alarm s m"
    and c1: "\<And>k' m'. contents k' s1 m' = contents k' s m'"
    and e1: "\<And>k' m'. entry k' s1 m' =
              (if k' = Alarm \<and> m' = m \<and> entry Alarm s m = None then Some [] else entry k' s m')"
    and f1: "alarm_heap s1 = alarm_heap s" "process_heap s1 = process_heap s"
      "status_heap s1 = status_heap s" "ml_alert_heap s1 = ml_alert_heap s"
      "command_heap s1 = command_heap s" "max_history_size s1 = max_history_size s"
      "latest_process s1 = latest_process s" "latest_status s1 = latest_status s"
    using deque_getitem_spec [of alarm_data Alarm ?put s m, OF _ _ assms(1,2)]
    by auto
  define hist where "hist = append_maxlen (max_history_size s) (contents Alarm s m) data"
  define s2 where "s2 = set_seq q hist s1"
  have d2: "deque_append q data s1 = s2"
    by (simp add: deque_append_eq s2_def hist_def h1 f1)
  have wf2: "well_formed s2" using wf1 by (simp add: s2_def wf_set_seq)
  have c2: "contents k s2 m' = (if k = Alarm \<and> m' = m then hist else contents k s m')" for k m'
    using contents_set_seq [OF wf1 q1] by (simp add: s2_def c1)
  have e2: "entry k s2 m' = (if k = Alarm \<and> m' = m then Some hist else entry k s m')" for k m'
    using entry_set_seq [OF wf1 q1] by (simp add: s2_def e1)
  obtain l s3 where g3: "active_alarms_getitem s2 m = (l, s3)"
    by (cases "active_alarms_getitem s2 m")
  note sp3 = active_alarms_getitem_spec [OF wf2 g3]
  have l3: "seq_heap s3 l = contents Active s m"
    using sp3(3) by (simp add: c2)
  have f3: "alarm_heap s3 = alarm_heap s" "max_history_size s3 = max_history_size s"
    using sp3 by (simp_all add: s2_def f1)
  have c3: "contents k s3 m' = (if k = Alarm \<and> m' = m then hist else contents k s m')" for k m'
    by (simp add: sp3 c2)
  have e3: "k \<noteq> Active \<Longrightarrow>
      entry k s3 m' = (if k = Alarm \<and> m' = m then Some hist else entry k s m')" for k m'
    by (simp add: sp3 e2)
  define old where "old = contents Active s m"
  define new where "new = active_after (alarm_heap s) data old"
  have "\<exists>s'. add_alarm_data s data = Inr s' \<and> well_formed s' \<and>
          (\<forall>k m'. contents k s' m' = (if k = Active \<and> m' = m then new else contents k s3 m')) \<and>
          (\<forall>k m'. k \<noteq> Active \<longrightarrow> entry k s' m' = entry k s3 m') \<and>
          alarm_heap s' = alarm_heap s3 \<and> process_heap s' = process_heap s3 \<and>
          status_heap s' = status_heap s3 \<and> ml_alert_heap s' = ml_alert_heap s3 \<and>
          command_heap s' = command_heap s3 \<and> max_history_size s' = max_history_size s3 \<and>
          latest_process s' = latest_process s3 \<and> latest_status s' = latest_status s3"
  proof (cases "resolved (alarm_heap s data)")
    case True
    define s4 where "s4 = bind_fresh Active m new s3"
    have "add_alarm_data s data = Inr s4"
      using True
      by (simp add: add_alarm_data_def m_def [symmetric] g1 d2 g3 l3 f3 s4_def bind_fresh_def
          new_seq_def new_def active_after_def old_def)
    then show ?thesis
      using sp3(1) by (simp add: s4_def wf_bind_fresh contents_bind_fresh entry_bind_fresh)
  next
    case False
    show ?thesis
    proof (cases "first_with_id (alarm_heap s) (alarm_id (alarm_heap s data)) old")
      case None
      define s4 where "s4 = set_seq l new s3"
      have "new = old @ [data]"
        using False None by (simp add: new_def active_after_def)
      then have "add_alarm_data s data = Inr s4"
        using False None
        by (simp add: add_alarm_data_def m_def [symmetric] g1 d2 g3 l3 f3 s4_def list_append_eq
            old_def)
      then show ?thesis
        using sp3(1) contents_set_seq [OF sp3(1,2)] entry_set_seq [OF sp3(1,2)]
        by (simp add: s4_def wf_set_seq)
    next
      case (Some e)
      define s4 where "s4 = set_seq l (remove1 e old) s3"
      define s5 where "s5 = set_seq l new s4"
      have n: "new = remove1 e old @ [data]"
        using False Some by (simp add: new_def active_after_def)
      have "py_remove (alarm_heap s) e old = Some (remove1 e old)"
        using Some by (rule py_remove_first)
      then have r: "list_remove l e s3 = Inr s4"
        by (simp add: list_remove_eq l3 f3 old_def s4_def)
      have "list_append l data s4 = s5"
        by (simp add: list_append_eq s4_def s5_def n set_seq_def)
      then have "add_alarm_data s data = Inr s5"
        using False Some r
        by (simp add: add_alarm_data_def m_def [symmetric] g1 d2 g3 l3 f3 old_def)
      moreover have "s5 = set_seq l new s3"
        by (simp add: s5_def s4_def set_seq_def)
      ultimately show ?thesis
        using sp3(1) contents_set_seq [OF sp3(1,2)] entry_set_seq [OF sp3(1,2)]
        by (simp add: wf_set_seq)
    qed
  qed
  then obtain s' where r: "add_alarm_data s data = Inr s'" "well_formed s'"
    "\<And>k m'. contents k s' m' = (if k = Active \<and> m' = m then new else contents k s3 m')"
    "\<And>k m'. k \<noteq> Active \<Longrightarrow> entry k s' m' = entry k s3 m'"
    "alarm_heap s' = alarm_heap s3" "process_heap s' = process_heap s3"
    "status_heap s' = status_heap s3" "ml_alert_heap s' = ml_alert_heap s3"
    "command_heap s' = command_heap s3" "max_history_size s' = max_history_size s3"
    "latest_process s' = latest_process s3" "latest_status s' = latest_status s3"
    by blast
  have f3': "process_heap s3 = process_heap s" "status_heap s3 = status_heap s"
    "ml_alert_heap s3 = ml_alert_heap s" "command_heap s3 = command_heap s"
    "latest_process s3 = latest_process s" "latest_status s3 = latest_status s"
    using g3 by (auto simp: active_alarms_getitem_eq s2_def f1 split: option.splits)
  show ?thesis
    apply (rule exI [of _ s'])
    apply (simp add: r same_objects_def f3 f3' c3 e3 new_def old_def)
    apply (simp add: hist_def)
    done
qed

lemma store_open_eq: "add_alarm_data (DataStore_init 1000 example_heap) 0 = Inr store_open"
  by (simp add: add_alarm_data_def DataStore_init_def example_heap_def alarm_A1_def
      deque_getitem_def new_deque_def new_seq_def deque_append_def append_maxlen_def
      active_alarms_getitem_def list_append_def store_open_def Let_def)

lemma distinct_active_after:
  assumes "distinct (map (\<lambda>a. alarm_id (h a)) old)"
  shows "distinct (map (\<lambda>a. alarm_id (h a)) (active_after h data old))"
proof (cases "resolved (h data)")
  case True
  then show ?thesis using assms by (simp add: active_after_def distinct_map_filter)
next
  case False
  show ?thesis
  proof (cases "first_with_id h (alarm_id (h data)) old")
    case None
    then have "alarm_id (h data) \<notin> (\<lambda>a. alarm_id (h a)) ` set old"
      by (auto simp: first_with_id_None)
    then show ?thesis using assms False None by (simp add: active_after_def)
  next
    case (Some e)
    then have e: "e \<in> set old" "alarm_id (h e) = alarm_id (h data)"
      by (auto dest: first_with_id_SomeD)
    have r: "remove1 e old = filter (\<lambda>y. alarm_id (h y) \<noteq> alarm_id (h data)) old"
      using remove1_unique_id [OF assms e(1)] e(2) by simp
    have "alarm_id (h data) \<notin> (\<lambda>a. alarm_id (h a)) ` set (remove1 e old)"
      unfolding r by auto
    moreover have "distinct (map (\<lambda>a. alarm_id (h a)) (remove1 e old))"
      unfolding r using assms by (simp add: distinct_map_filter)
    ultimately show ?thesis using False Some by (simp add: active_after_def)
  qed
qed

lemma filter_active_after:
  assumes "distinct (map (\<lambda>a. alarm_id (h a)) old)"
  shows "filter (\<lambda>a. alarm_id (h a) = alarm_id (h data)) (active_after h data old) =
           (if resolved (h data) then [] else [data])"
proof (cases "resolved (h data)")
  case True
  then show ?thesis by (simp add: active_after_def)
next
  case False
  show ?thesis
  proof (cases "first_with_id h (alarm_id (h data)) old")
    case None
    then have "filter (\<lambda>a. alarm_id (h a) = alarm_id (h data)) old = []"
      by (auto simp: first_with_id_None filter_empty_conv)
    then show ?thesis using False None by (simp add: active_after_def)
  next
    case (Some e)
    then have e: "e \<in> set old" "alarm_id (h e) = alarm_id (h data)"
      by (auto dest: first_with_id_SomeD)
    have r: "remove1 e old = filter (\<lambda>y. alarm_id (h y) \<noteq> alarm_id (h data)) old"
      using remove1_unique_id [OF assms e(1)] e(2) by simp
    have "filter (\<lambda>a. alarm_id (h a) = alarm_id (h data)) (remove1 e old) = []"
      unfolding r by (simp add: filter_empty_conv)
    then show ?thesis using False Some by (simp add: active_after_def)
  qed
qed

lemma unique_ids_init: "unique_ids (DataStore_init n h)"
  by (simp add: unique_ids_def contents_def entry_def)

lemma add_alarm_data_unique_ids:
  assumes "well_formed s" and "0 \<le> max_history_size s" and "unique_ids s"
    and "add_alarm_data s data = Inr s'"
  shows "unique_ids s'"
proof -
  from add_alarm_data_spec [OF assms(1,2), of data] assms(4)
  have h: "alarm_heap s' = alarm_heap s"
    and c: "\<And>m'. contents Active s' m' =
        (if m' = machine_id (alarm_heap s data)
         then active_after (alarm_heap s) data (contents Active s (machine_id (alarm_heap s data)))
         else contents Active s m')"
    by (auto simp: same_objects_def)
  show ?thesis
    unfolding unique_ids_def
    using assms(3) by (auto simp: h c unique_ids_def distinct_active_after)
qed

lemma store_open_facts:
  "well_formed store_open" "unique_ids store_open" "contents Active store_open m = (if m = ''M1'' then [0] else [])"
  "contents Alarm store_open m = (if m = ''M1'' then [0] else [])"
  "alarm_heap store_open = alarm_heap example_heap"
proof -
  let ?s = "DataStore_init 1000 example_heap"
  have n: "0 \<le> max_history_size ?s" by (simp add: DataStore_init_def)
  from add_alarm_data_spec [OF wf_init n, of 0]
  show "well_formed store_open" by (simp add: store_open_eq)
  from add_alarm_data_unique_ids [OF wf_init n unique_ids_init store_open_eq]
  show "unique_ids store_open" .
  show "contents Active store_open m = (if m = ''M1'' then [0] else [])"
    "contents Alarm store_open m = (if m = ''M1'' then [0] else [])"
    by (simp_all add: contents_alt store_open_def)
  show "alarm_heap store_open = alarm_heap example_heap"
    by (simp add: store_open_def)
qed

lemma acknowledge_alarm_absent:
  assumes "well_formed s" and "\<forall>a \<in> set (contents Active s m). alarm_id (alarm_heap s a) \<noteq> aid"
  shows "\<exists>s'. acknowledge_alarm s m aid u now = (False, s') \<and> well_formed s' \<and>
           (\<forall>k m'. contents k s' m' = contents k s m') \<and>
           (\<forall>k m'. entry k s' m' =
              (if k = Active \<and> m' = m \<and> entry Active s m = None then Some [] else entry k s m')) \<and>
           alarm_heap s' = alarm_heap s"
proof -
  obtain l s1 where g: "active_alarms_getitem s m = (l, s1)"
    by (cases "active_alarms_getitem s m")
  note sp = active_alarms_getitem_spec [OF assms(1) g]
  have "first_with_id (alarm_heap s1) aid (seq_heap s1 l) = None"
    using assms(2) by (simp add: first_with_id_None sp)
  then have "acknowledge_alarm s m aid u now = (False, s1)"
    by (simp add: acknowledge_alarm_def g)
  then show ?thesis using sp by simp
qed

lemma acknowledge_alarm_present:
  assumes "well_formed s" and "first_with_id (alarm_heap s) aid (contents Active s m) = Some a"
  shows "\<exists>s'. acknowledge_alarm s m aid u now = (True, s') \<and> well_formed s' \<and>
           (\<forall>k m'. contents k s' m' = contents k s m') \<and>
           (\<forall>k m'. entry k s' m' =
              (if k = Active \<and> m' = m \<and> entry Active s m = None then Some [] else entry k s m')) \<and>
           alarm_heap s' = (alarm_heap s)(a := (alarm_heap s a)
              \<lparr>acknowledged := True, acknowledged_by := Some u, acknowledged_at := Some now\<rparr>)"
proof -
  obtain l s1 where g: "active_alarms_getitem s m = (l, s1)"
    by (cases "active_alarms_getitem s m")
  note sp = active_alarms_getitem_spec [OF assms(1) g]
  have "first_with_id (alarm_heap s1) aid (seq_heap s1 l) = Some a"
    using assms(2) by (simp add: sp)
  then have "acknowledge_alarm s m aid u now =
      (True, s1\<lparr>alarm_heap := (alarm_heap s)(a := (alarm_heap s a)
              \<lparr>acknowledged := True, acknowledged_by := Some u, acknowledged_at := Some now\<rparr>)\<rparr>)"
    by (simp add: acknowledge_alarm_def g sp)
  then show ?thesis using sp by simp
qed

lemma active_alarms_getitem_again:
  "active_alarms_getitem s m = (l, s1) \<Longrightarrow> active_alarms_getitem s1 m = (l, s1)"
  by (auto simp: active_alarms_getitem_def new_seq_def update_conv' split: option.splits)

lemma active_alarms_getitem_lookup:
  "active_alarms_getitem s m = (l, s1) \<Longrightarrow> map_of (active_alarms s1) m = Some l"
  by (auto simp: active_alarms_getitem_def new_seq_def update_conv' split: option.splits)

lemma acknowledge_alarm_twice:
  "acknowledge_alarm (snd (acknowledge_alarm s m aid u1 t1)) m aid u2 t2 =
   acknowledge_alarm s m aid u2 t2"
proof -
  obtain l s1 where g: "active_alarms_getitem s m = (l, s1)"
    by (cases "active_alarms_getitem s m")
  note g' = active_alarms_getitem_again [OF g]
  show ?thesis
  proof (cases "first_with_id (alarm_heap s1) aid (seq_heap s1 l)")
    case None
    then show ?thesis by (simp add: acknowledge_alarm_def g g')
  next
    case (Some a)
    define h1 where "h1 = (alarm_heap s1)(a := (alarm_heap s1 a)
      \<lparr>acknowledged := True, acknowledged_by := Some u1, acknowledged_at := Some t1\<rparr>)"
    define s2 where "s2 = s1\<lparr>alarm_heap := h1\<rparr>"
    have 1: "acknowledge_alarm s m aid u1 t1 = (True, s2)"
      using Some by (simp add: acknowledge_alarm_def g s2_def h1_def)
    have g2: "active_alarms_getitem s2 m = (l, s2)"
      using active_alarms_getitem_lookup [OF g] by (simp add: active_alarms_getitem_def s2_def)
    have "first_with_id h1 aid (seq_heap s1 l) = first_with_id (alarm_heap s1) aid (seq_heap s1 l)"
      by (rule first_with_id_cong) (simp add: h1_def)
    then have f2: "first_with_id (alarm_heap s2) aid (seq_heap s2 l) = Some a"
      using Some by (simp add: s2_def)
    have "acknowledge_alarm s2 m aid u2 t2 =
      (True, s2\<lparr>alarm_heap := (alarm_heap s2)(a := (alarm_heap s2 a)
        \<lparr>acknowledged := True, acknowledged_by := Some u2, acknowledged_at := Some t2\<rparr>)\<rparr>)"
      using f2 by (simp add: acknowledge_alarm_def g2)
    moreover have "acknowledge_alarm s m aid u2 t2 =
      (True, s1\<lparr>alarm_heap := (alarm_heap s1)(a := (alarm_heap s1 a)
        \<lparr>acknowledged := True, acknowledged_by := Some u2, acknowledged_at := Some t2\<rparr>)\<rparr>)"
      using Some by (simp add: acknowledge_alarm_def g)
    ultimately show ?thesis
      by (simp add: 1 s2_def h1_def)
  qed
qed

lemma first_with_id_unique:
  assumes "distinct (map (\<lambda>a. alarm_id (h a)) xs)" and "a \<in> set xs" and "alarm_id (h a) = aid"
  shows "first_with_id h aid xs = Some a"
  using assms by (induction xs) (auto simp: rev_image_eqI)

lemma filter_active_after_other:
  assumes "alarm_id (h data) \<noteq> aid"
  shows "filter (\<lambda>a. alarm_id (h a) = aid) (active_after h data old) =
         filter (\<lambda>a. alarm_id (h a) = aid) old"
proof (cases "resolved (h data)")
  case True
  have "(alarm_id (h a) \<noteq> alarm_id (h data) \<and> alarm_id (h a) = aid) = (alarm_id (h a) = aid)" for a
    using assms by auto
  then show ?thesis using True by (simp add: active_after_def)
next
  case False
  show ?thesis
  proof (cases "first_with_id h (alarm_id (h data)) old")
    case None
    then show ?thesis using False assms by (simp add: active_after_def)
  next
    case (Some e)
    then have "alarm_id (h e) \<noteq> aid"
      using assms by (auto dest: first_with_id_SomeD)
    then have "e \<notin> set (filter (\<lambda>a. alarm_id (h a) = aid) old)"
      by simp
    then have "filter (\<lambda>a. alarm_id (h a) = aid) (remove1 e old) =
        filter (\<lambda>a. alarm_id (h a) = aid) old"
      by (simp add: filter_remove1 remove1_idem)
    then show ?thesis using False Some assms by (simp add: active_after_def)
  qed
qed

lemma add_alarm_data_step:
  assumes "well_formed s" and "0 \<le> max_history_size s" and "unique_ids s"
  shows "\<exists>s'. add_alarm_data s r = Inr s' \<and> well_formed s' \<and> unique_ids s' \<and>
           alarm_heap s' = alarm_heap s \<and> max_history_size s' = max_history_size s \<and>
           filter (\<lambda>a. alarm_id (alarm_heap s a) = aid) (contents Active s' m) =
             (if machine_id (alarm_heap s r) = m \<and> alarm_id (alarm_heap s r) = aid
              then (if resolved (alarm_heap s r) then [] else [r])
              else filter (\<lambda>a. alarm_id (alarm_heap s a) = aid) (contents Active s m))"
proof -
  from add_alarm_data_spec [OF assms(1,2), of r]
  obtain s' where s': "add_alarm_data s r = Inr s'" "well_formed s'" "same_objects s s'"
    "\<And>k m'. contents k s' m' =
        (if k = Alarm \<and> m' = machine_id (alarm_heap s r)
         then append_maxlen (max_history_size s) (contents Alarm s (machine_id (alarm_heap s r))) r
         else if k = Active \<and> m' = machine_id (alarm_heap s r)
         then active_after (alarm_heap s) r (contents Active s (machine_id (alarm_heap s r)))
         else contents k s m')"
    by blast
  have u: "unique_ids s'"
    using assms s'(1) by (rule add_alarm_data_unique_ids)
  have d: "distinct (map (\<lambda>a. alarm_id (alarm_heap s a)) (contents Active s m))"
    using assms(3) by (simp add: unique_ids_def)
  have "filter (\<lambda>a. alarm_id (alarm_heap s a) = aid) (contents Active s' m) =
             (if machine_id (alarm_heap s r) = m \<and> alarm_id (alarm_heap s r) = aid
              then (if resolved (alarm_heap s r) then [] else [r])
              else filter (\<lambda>a. alarm_id (alarm_heap s a) = aid) (contents Active s m))"
  proof (cases "machine_id (alarm_heap s r) = m")
    case False
    then show ?thesis by (simp add: s'(4))
  next
    case True
    show ?thesis
    proof (cases "alarm_id (alarm_heap s r) = aid")
      case False
      with True show ?thesis
        by (simp add: s'(4) filter_active_after_other)
    next
      case id: True
      have "filter (\<lambda>a. alarm_id (alarm_heap s a) = alarm_id (alarm_heap s r))
              (active_after (alarm_heap s) r (contents Active s m)) =
            (if resolved (alarm_heap s r) then [] else [r])"
        using d by (rule filter_active_after)
      with True id show ?thesis by (simp add: s'(4))
    qed
  qed
  with s' u show ?thesis by (auto simp: same_objects_def)
qed

lemma ingest_alarms:
  assumes "well_formed s" and "0 \<le> max_history_size s" and "unique_ids s"
  shows "\<exists>s'. ingest add_alarm_data s rs = Inr s' \<and> well_formed s' \<and> unique_ids s' \<and>
           alarm_heap s' = alarm_heap s \<and> max_history_size s' = max_history_size s \<and>
           filter (\<lambda>a. alarm_id (alarm_heap s a) = aid) (contents Active s' m) =
             (let es = filter (\<lambda>r. machine_id (alarm_heap s r) = m \<and>
                                    alarm_id (alarm_heap s r) = aid) rs
              in if es = [] then filter (\<lambda>a. alarm_id (alarm_heap s a) = aid) (contents Active s m)
                 else if resolved (alarm_heap s (last es)) then [] else [last es])"
  using assms
proof (induction rs arbitrary: s)
  case Nil
  then show ?case by simp
next
  case (Cons r rs)
  from add_alarm_data_step [OF Cons.prems, of r aid m]
  obtain s1 where s1: "add_alarm_data s r = Inr s1" "well_formed s1" "unique_ids s1"
    "alarm_heap s1 = alarm_heap s" "max_history_size s1 = max_history_size s"
    "filter (\<lambda>a. alarm_id (alarm_heap s a) = aid) (contents Active s1 m) =
             (if machine_id (alarm_heap s r) = m \<and> alarm_id (alarm_heap s r) = aid
              then (if resolved (alarm_heap s r) then [] else [r])
              else filter (\<lambda>a. alarm_id (alarm_heap s a) = aid) (contents Active s m))"
    by blast
  have n1: "0 \<le> max_history_size s1"
    using Cons.prems(2) by (simp add: s1(5))
  from Cons.IH [OF s1(2) n1 s1(3)]
  obtain s' where s': "ingest add_alarm_data s1 rs = Inr s'" "well_formed s'" "unique_ids s'"
    "alarm_heap s' = alarm_heap s1" "max_history_size s' = max_history_size s1"
    "filter (\<lambda>a. alarm_id (alarm_heap s1 a) = aid) (contents Active s' m) =
             (let es = filter (\<lambda>r. machine_id (alarm_heap s1 r) = m \<and>
                                    alarm_id (alarm_heap s1 r) = aid) rs
              in if es = [] then filter (\<lambda>a. alarm_id (alarm_heap s1 a) = aid) (contents Active s1 m)
                 else if resolved (alarm_heap s1 (last es)) then [] else [last es])"
    by blast
  have "ingest add_alarm_data s (r # rs) = Inr s'"
    by (simp add: s1(1) s'(1))
  moreover have "filter (\<lambda>a. alarm_id (alarm_heap s a) = aid) (contents Active s' m) =
             (let es = filter (\<lambda>r. machine_id (alarm_heap s r) = m \<and>
                                    alarm_id (alarm_heap s r) = aid) (r # rs)
              in if es = [] then filter (\<lambda>a. alarm_id (alarm_heap s a) = aid) (contents Active s m)
                 else if resolved (alarm_heap s (last es)) then [] else [last es])"
    using s'(6) s1(6) by (simp add: s1(4) Let_def)
  ultimately show ?case
    using s' s1 by simp
qed

lemma length_filter_unique:
  "distinct (map f xs) \<Longrightarrow> length (filter (\<lambda>x. f x = c) xs) \<le> Suc 0"
  by (induction xs) (auto simp: filter_empty_conv rev_image_eqI)

lemma last_filter_holds: "xs \<noteq> [] \<Longrightarrow> P (last xs) \<Longrightarrow> last (filter P xs) = last xs"
  by (induction xs) (auto simp: filter_empty_conv)

lemma latest_upd_views [simp]:
  "well_formed (s\<lparr>latest_process := d\<rparr>) = well_formed s"
  "entry k (s\<lparr>latest_process := d\<rparr>) m = entry k s m"
  "contents k (s\<lparr>latest_process := d\<rparr>) m = contents k s m"
  "well_formed (s\<lparr>latest_status := d\<rparr>) = well_formed s"
  "entry k (s\<lparr>latest_status := d\<rparr>) m = entry k s m"
  "contents k (s\<lparr>latest_status := d\<rparr>) m = contents k s m"
  by (simp_all add: well_formed_def entry_def contents_def)

lemma contents_of_entry:
  "(\<And>k m. entry k s' m = (if k = k0 \<and> m = m0 then Some xs else entry k s m)) \<Longrightarrow>
   contents k s' m = (if k = k0 \<and> m = m0 then xs else contents k s m)"
  by (simp add: contents_def)

lemma deque_push_spec:
  assumes "\<And>t. get t = dict_of k t" and "\<And>d t. put d t = put_dict k d t"
    and "well_formed s" and "0 \<le> max_history_size s"
  shows "\<exists>q s1. deque_getitem get put s m = Inr (q, s1) \<and>
           well_formed (deque_append q x s1) \<and> same_objects s (deque_append q x s1) \<and>
           latest_process (deque_append q x s1) = latest_process s \<and>
           latest_status (deque_append q x s1) = latest_status s \<and>
           (\<forall>k' m'. entry k' (deque_append q x s1) m' =
              (if k' = k \<and> m' = m
               then Some (append_maxlen (max_history_size s) (contents k s m) x)
               else entry k' s m'))"
proof -
  from deque_getitem_spec [OF assms, of m]
  obtain q s1 where g: "deque_getitem get put s m = Inr (q, s1)" and wf1: "well_formed s1"
    and q1: "map_of (dict_of k s1) m = Some q" and h1: "seq_heap s1 q = contents k s m"
    and e1: "\<And>k' m'. entry k' s1 m' =
              (if k' = k \<and> m' = m \<and> entry k s m = None then Some [] else entry k' s m')"
    and f1: "alarm_heap s1 = alarm_heap s" "process_heap s1 = process_heap s"
      "status_heap s1 = status_heap s" "ml_alert_heap s1 = ml_alert_heap s"
      "command_heap s1 = command_heap s" "max_history_size s1 = max_history_size s"
      "latest_process s1 = latest_process s" "latest_status s1 = latest_status s"
    by auto
  have "entry k' (deque_append q x s1) m' =
      (if k' = k \<and> m' = m then Some (append_maxlen (max_history_size s) (contents k s m) x)
       else entry k' s m')" for k' m'
    using entry_set_seq [OF wf1 q1] by (simp add: deque_append_eq h1 f1 e1)
  moreover have "well_formed (deque_append q x s1)"
    using wf1 by (simp add: deque_append_eq wf_set_seq)
  moreover have "same_objects s (deque_append q x s1)"
    "latest_process (deque_append q x s1) = latest_process s"
    "latest_status (deque_append q x s1) = latest_status s"
    by (simp_all add: deque_append_eq same_objects_def f1)
  ultimately show ?thesis using g by blast
qed

lemma same_objects_latest [simp]:
  "same_objects s (t\<lparr>latest_process := d\<rparr>) = same_objects s t"
  "same_objects s (t\<lparr>latest_status := d\<rparr>) = same_objects s t"
  by (simp_all add: same_objects_def)

lemma add_process_data_spec:
  fixes s :: state and data :: ref
  assumes "well_formed s" and "0 \<le> max_history_size s"
  defines "m \<equiv> ProcessData.machine_id (process_heap s data)"
  shows "\<exists>s'. add_process_data s data = Inr s' \<and> well_formed s' \<and> same_objects s s' \<and>
           latest_process s' = AList.update m data (latest_process s) \<and>
           latest_status s' = latest_status s \<and>
           (\<forall>k m'. entry k s' m' =
              (if k = Process \<and> m' = m
               then Some (append_maxlen (max_history_size s) (contents Process s m) data)
               else entry k s m'))"
  using deque_push_spec [of process_data Process "\<lambda>d t. t\<lparr>process_data := d\<rparr>" s m data, OF _ _ assms(1,2)]
  by (auto simp: add_process_data_def m_def)

lemma add_status_data_spec:
  fixes s :: state and data :: ref
  assumes "well_formed s" and "0 \<le> max_history_size s"
  defines "m \<equiv> StatusData.machine_id (status_heap s data)"
  shows "\<exists>s'. add_status_data s data = Inr s' \<and> well_formed s' \<and> same_objects s s' \<and>
           latest_process s' = latest_process s \<and>
           latest_status s' = AList.update m data (latest_status s) \<and>
           (\<forall>k m'. entry k s' m' =
              (if k = Status \<and> m' = m
               then Some (append_maxlen (max_history_size s) (contents Status s m) data)
               else entry k s m'))"
  using deque_push_spec [of status_data Status "\<lambda>d t. t\<lparr>status_data := d\<rparr>" s m data, OF _ _ assms(1,2)]
  by (auto simp: add_status_data_def m_def)

lemma add_ml_alert_spec:
  fixes s :: state and data :: ref
  assumes "well_formed s" and "0 \<le> max_history_size s"
  defines "m \<equiv> MLAlert.machine_id (ml_alert_heap s data)"
  shows "\<exists>s'. add_ml_alert s data = Inr s' \<and> well_formed s' \<and> same_objects s s' \<and>
           latest_process s' = latest_process s \<and> latest_status s' = latest_status s \<and>
           (\<forall>k m'. entry k s' m' =
              (if k = Advisory \<and> m' = m
               then Some (append_maxlen (max_history_size s) (contents Advisory s m) data)
               else entry k s m'))"
  using deque_push_spec [of ml_alerts Advisory "\<lambda>d t. t\<lparr>ml_alerts := d\<rparr>" s m data, OF _ _ assms(1,2)]
  by (auto simp: add_ml_alert_def m_def)

lemma add_command_spec:
  fixes s :: state and data :: ref
  assumes "well_formed s" and "0 \<le> max_history_size s"
  defines "m \<equiv> ControlCommand.machine_id (command_heap s data)"
  shows "\<exists>s'. add_command s data = Inr s' \<and> well_formed s' \<and> same_objects s s' \<and>
           latest_process s' = latest_process s \<and> latest_status s' = latest_status s \<and>
           (\<forall>k m'. entry k s' m' =
              (if k = Command \<and> m' = m
               then Some (append_maxlen (max_history_size s) (contents Command s m) data)
               else entry k s m'))"
  using deque_push_spec [of commands Command "\<lambda>d t. t\<lparr>commands := d\<rparr>" s m data, OF _ _ assms(1,2)]
  by (auto simp: add_command_def m_def)

lemma append_maxlen_keep:
  "int (length xs) \<le> n \<Longrightarrow>
   append_maxlen n xs x = drop (length (xs @ [x]) - nat n) (xs @ [x])"
  by (cases xs) (auto simp: append_maxlen_def Let_def nat_diff_distrib Suc_diff_le)

lemma length_append_maxlen:
  "0 \<le> n \<Longrightarrow> int (length xs) \<le> n \<Longrightarrow> int (length (append_maxlen n xs x)) \<le> n"
  by (auto simp: append_maxlen_def Let_def)

lemma keep_last_append:
  "drop (length (drop (length xs - n) xs @ ys) - n) (drop (length xs - n) xs @ ys) =
   drop (length (xs @ ys) - n) (xs @ ys)"
proof (cases "length xs \<le> n")
  case True
  then show ?thesis by simp
next
  case False
  then have "length (drop (length xs - n) xs @ ys) - n = length ys"
    by simp
  moreover have "length (xs @ ys) - n = (length xs - n) + length ys"
    using False by simp
  ultimately show ?thesis
    by (simp add: drop_drop [symmetric] add.commute del: drop_drop)
qed

lemma ingest_process_data:
  assumes "well_formed s" and "0 \<le> max_history_size s"
    and "int (length (contents Process s m)) \<le> max_history_size s"
  shows "\<exists>s'. ingest add_process_data s rs = Inr s' \<and> well_formed s' \<and>
           process_heap s' = process_heap s \<and> max_history_size s' = max_history_size s \<and>
           map_of (latest_process s') m =
             (let es = filter (\<lambda>r. ProcessData.machine_id (process_heap s r) = m) rs
              in if es = [] then map_of (latest_process s) m else Some (last es)) \<and>
           contents Process s' m =
             (let es = filter (\<lambda>r. ProcessData.machine_id (process_heap s r) = m) rs;
                  xs = contents Process s m @ es
              in drop (length xs - nat (max_history_size s)) xs)"
  using assms
proof (induction rs arbitrary: s)
  case Nil
  then show ?case by simp
next
  case (Cons r rs)
  let ?n = "max_history_size s"
  let ?m = "ProcessData.machine_id (process_heap s r)"
  from add_process_data_spec [OF Cons.prems(1,2), of r]
  obtain s1 where s1: "add_process_data s r = Inr s1" "well_formed s1" "same_objects s s1"
    "latest_process s1 = AList.update ?m r (latest_process s)"
    "\<And>k m'. entry k s1 m' =
       (if k = Process \<and> m' = ?m then Some (append_maxlen ?n (contents Process s ?m) r)
        else entry k s m')"
    by blast
  have o: "process_heap s1 = process_heap s" "max_history_size s1 = ?n"
    using s1(3) by (simp_all add: same_objects_def)
  have c1: "contents Process s1 m =
      (if ?m = m then append_maxlen ?n (contents Process s m) r else contents Process s m)"
    by (auto simp: contents_def s1(5))
  have b1: "int (length (contents Process s1 m)) \<le> max_history_size s1"
    using Cons.prems(2,3) by (simp add: c1 o length_append_maxlen)
  have n1: "0 \<le> max_history_size s1"
    using Cons.prems(2) by (simp add: o)
  from Cons.IH [OF s1(2) n1 b1]
  obtain s' where s': "ingest add_process_data s1 rs = Inr s'" "well_formed s'"
    "process_heap s' = process_heap s1" "max_history_size s' = max_history_size s1"
    "map_of (latest_process s') m =
       (let es = filter (\<lambda>r. ProcessData.machine_id (process_heap s1 r) = m) rs
        in if es = [] then map_of (latest_process s1) m else Some (last es))"
    "contents Process s' m =
       (let es = filter (\<lambda>r. ProcessData.machine_id (process_heap s1 r) = m) rs;
            xs = contents Process s1 m @ es
        in drop (length xs - nat (max_history_size s1)) xs)"
    by blast
  have "ingest add_process_data s (r # rs) = Inr s'"
    by (simp add: s1(1) s'(1))
  moreover have "map_of (latest_process s') m =
             (let es = filter (\<lambda>r. ProcessData.machine_id (process_heap s r) = m) (r # rs)
              in if es = [] then map_of (latest_process s) m else Some (last es))"
    using s'(5) by (simp add: o s1(4) update_conv' Let_def)
  moreover have "contents Process s' m =
             (let es = filter (\<lambda>r. ProcessData.machine_id (process_heap s r) = m) (r # rs);
                  xs = contents Process s m @ es
              in drop (length xs - nat (max_history_size s)) xs)"
  proof (cases "?m = m")
    case False
    then show ?thesis using s'(6) by (simp add: o c1 Let_def)
  next
    case True
    have "append_maxlen ?n (contents Process s m) r =
        drop (length (contents Process s m @ [r]) - nat ?n) (contents Process s m @ [r])"
      using Cons.prems(3) by (rule append_maxlen_keep)
    then show ?thesis
      using s'(6) True
        keep_last_append [of "contents Process s m @ [r]" "nat ?n"
          "filter (\<lambda>r. ProcessData.machine_id (process_heap s r) = m) rs"]
      by (simp add: o c1 Let_def)
  qed
  ultimately show ?case
    using s' o by simp
qed

lemma same_objects_refl [simp]: "same_objects s s"
  by (simp add: same_objects_def)

lemma same_objects_trans: "same_objects s t \<Longrightarrow> same_objects t u \<Longrightarrow> same_objects s u"
  by (simp add: same_objects_def)

lemma extends_refl [simp]: "extends s s"
  by (simp add: extends_def)

lemma extends_trans: "extends s t \<Longrightarrow> extends t u \<Longrightarrow> extends s u"
  by (auto simp: extends_def intro: same_objects_trans)

lemma extends_new_seq: "extends s (snd (new_seq xs s))"
  by (simp add: extends_def same_objects_def)

lemma extends_new_dict: "extends s (snd (new_dict kvs s))"
  by (simp add: extends_def same_objects_def)

lemma wf_extends: "well_formed s \<Longrightarrow> extends s s' \<Longrightarrow> well_formed s'"
  unfolding well_formed_def extends_def by (metis less_le_trans)

lemma entry_extends: "well_formed s \<Longrightarrow> extends s s' \<Longrightarrow> entry k s' m = entry k s m"
  by (auto simp: entry_def extends_def map_option_case split: option.splits dest: wf_boundD)

lemma unheld_extends: "well_formed s \<Longrightarrow> extends s s' \<Longrightarrow> next_seq s \<le> l \<Longrightarrow> unheld s' l"
  unfolding unheld_def extends_def by (metis wf_boundD not_less)


lemma py_slice_from_last:
  "0 < limit \<Longrightarrow> py_slice_from xs (- limit) = drop (length xs - min (nat limit) (length xs)) xs"
  by (auto simp: py_slice_from_def Let_def max_def min_def nat_diff_distrib)

lemma get_machine_alarms_spec:
  assumes "well_formed s"
  shows "\<exists>l s'. get_machine_alarms s m = (l, s') \<and> well_formed s' \<and> unheld s' l \<and>
           seq_heap s' l = contents Active s m \<and>
           (\<forall>k m'. entry k s' m' =
              (if k = Active \<and> m' = m \<and> entry Active s m = None then Some [] else entry k s m')) \<and>
           same_objects s s'"
proof -
  obtain l0 s1 where g: "active_alarms_getitem s m = (l0, s1)"
    by (cases "active_alarms_getitem s m")
  note sp = active_alarms_getitem_spec [OF assms g]
  define s' where "s' = snd (new_seq (contents Active s m) s1)"
  have r: "get_machine_alarms s m = (next_seq s1, s')"
    by (simp add: get_machine_alarms_def g sp s'_def new_seq_def)
  have e: "extends s1 s'"
    unfolding s'_def by (rule extends_new_seq)
  have so: "same_objects s s1"
    using g by (auto simp: active_alarms_getitem_eq same_objects_def split: option.splits)
  have "well_formed s'" using sp(1) e by (rule wf_extends)
  moreover have "unheld s' (next_seq s1)"
    using sp(1) e by (rule unheld_extends) simp
  moreover have "seq_heap s' (next_seq s1) = contents Active s m"
    by (simp add: s'_def)
  moreover have "entry k s' m' =
      (if k = Active \<and> m' = m \<and> entry Active s m = None then Some [] else entry k s m')" for k m'
    using entry_extends [OF sp(1) e] by (simp add: sp)
  moreover have "same_objects s s'"
    using so e by (auto simp: extends_def intro: same_objects_trans)
  ultimately show ?thesis using r by blast
qed

lemma get_history_spec:
  assumes "\<And>t. get t = dict_of k t" and "\<And>d t. put d t = put_dict k d t"
    and "well_formed s" and "0 \<le> max_history_size s"
  shows "\<exists>l s'.
           (case deque_getitem get put s m of
              Inl e \<Rightarrow> Inl e
            | Inr (q, s1) \<Rightarrow>
                (let (history, s2) = new_seq (seq_heap s1 q) s1
                 in if limit \<noteq> 0
                    then Inr (new_seq (py_slice_from (seq_heap s2 history) (- limit)) s2)
                    else Inr (history, s2))) = Inr (l, s') \<and>
           well_formed s' \<and> unheld s' l \<and>
           seq_heap s' l =
             (if limit \<noteq> 0 then py_slice_from (contents k s m) (- limit) else contents k s m) \<and>
           (\<forall>k' m'. entry k' s' m' =
              (if k' = k \<and> m' = m \<and> entry k s m = None then Some [] else entry k' s m')) \<and>
           same_objects s s'"
proof -
  from deque_getitem_spec [OF assms, of m]
  obtain q s1 where g: "deque_getitem get put s m = Inr (q, s1)" and wf1: "well_formed s1"
    and h1: "seq_heap s1 q = contents k s m"
    and e1: "\<And>k' m'. entry k' s1 m' =
              (if k' = k \<and> m' = m \<and> entry k s m = None then Some [] else entry k' s m')"
    and f1: "alarm_heap s1 = alarm_heap s" "process_heap s1 = process_heap s"
      "status_heap s1 = status_heap s" "ml_alert_heap s1 = ml_alert_heap s"
      "command_heap s1 = command_heap s" "max_history_size s1 = max_history_size s"
    by auto
  define s2 where "s2 = snd (new_seq (contents k s m) s1)"
  define s3 where "s3 = snd (new_seq (py_slice_from (contents k s m) (- limit)) s2)"
  have e12: "extends s1 s2" unfolding s2_def by (rule extends_new_seq)
  have e23: "extends s2 s3" unfolding s3_def by (rule extends_new_seq)
  have e13: "extends s1 s3" using e12 e23 by (rule extends_trans)
  have so: "same_objects s s1" by (simp add: same_objects_def f1)
  show ?thesis
  proof (cases "limit = 0")
    case True
    have "well_formed s2" using wf1 e12 by (rule wf_extends)
    moreover have "unheld s2 (next_seq s1)"
      using wf1 e12 by (rule unheld_extends) simp
    moreover have "seq_heap s2 (next_seq s1) = contents k s m"
      by (simp add: s2_def)
    moreover have "entry k' s2 m' =
        (if k' = k \<and> m' = m \<and> entry k s m = None then Some [] else entry k' s m')" for k' m'
      using entry_extends [OF wf1 e12] by (simp add: e1)
    moreover have "same_objects s s2"
      using so e12 by (auto simp: extends_def intro: same_objects_trans)
    ultimately show ?thesis
      using True by (simp add: g h1 new_seq_def s2_def)
  next
    case False
    have "well_formed s3" using wf1 e13 by (rule wf_extends)
    moreover have "unheld s3 (next_seq s2)"
      using wf1 e13 by (rule unheld_extends) (simp add: s2_def)
    moreover have "seq_heap s3 (next_seq s2) = py_slice_from (contents k s m) (- limit)"
      by (simp add: s3_def)
    moreover have "entry k' s3 m' =
        (if k' = k \<and> m' = m \<and> entry k s m = None then Some [] else entry k' s m')" for k' m'
      using entry_extends [OF wf1 e13] by (simp add: e1)
    moreover have "same_objects s s3"
      using so e13 by (auto simp: extends_def intro: same_objects_trans)
    ultimately show ?thesis
      using False by (simp add: g h1 new_seq_def s2_def s3_def)
  qed
qed

lemmas get_process_history_spec =
  get_history_spec [of process_data Process "\<lambda>d t. t\<lparr>process_data := d\<rparr>",
    folded get_process_history_def, simplified]

lemmas get_alarm_history_spec =
  get_history_spec [of alarm_data Alarm "\<lambda>d t. t\<lparr>alarm_data := d\<rparr>",
    folded get_alarm_history_def, simplified]

lemma copy_items_spec:
  assumes "\<forall>(k, v) \<in> set kvs. v < next_seq s" and "distinct (map fst kvs)"
  shows "extends s (snd (copy_items kvs d s)) \<and>
         next_seq (snd (copy_items kvs d s)) = next_seq s + length kvs \<and>
         (\<forall>key. map_of kvs key = None \<longrightarrow>
                  map_of (fst (copy_items kvs d s)) key = map_of d key) \<and>
         (\<forall>key v. map_of kvs key = Some v \<longrightarrow>
                  (\<exists>l. map_of (fst (copy_items kvs d s)) key = Some l \<and> next_seq s \<le> l \<and>
                       seq_heap (snd (copy_items kvs d s)) l = seq_heap s v))"
  using assms
proof (induction kvs arbitrary: d s)
  case Nil
  then show ?case by simp
next
  case (Cons kv kvs)
  obtain k v where kv: "kv = (k, v)" by (cases kv)
  define s1 where "s1 = snd (new_seq (seq_heap s v) s)"
  define d1 where "d1 = AList.update k (next_seq s) d"
  have c: "copy_items (kv # kvs) d s = copy_items kvs d1 s1"
    by (simp add: kv s1_def d1_def new_seq_def)
  have e1: "extends s s1" unfolding s1_def by (rule extends_new_seq)
  have n1: "next_seq s1 = Suc (next_seq s)" by (simp add: s1_def)
  have p1: "\<forall>(k, v) \<in> set kvs. v < next_seq s1"
    using Cons.prems(1) by (auto simp: n1 less_Suc_eq)
  have p2: "distinct (map fst kvs)" using Cons.prems(2) by simp
  let ?r = "copy_items kvs d1 s1"
  from Cons.IH [OF p1 p2, of d1]
  have ih1: "extends s1 (snd ?r)" and ih2: "next_seq (snd ?r) = next_seq s1 + length kvs"
    and ih3: "\<And>key. map_of kvs key = None \<Longrightarrow> map_of (fst ?r) key = map_of d1 key"
    and ih4: "\<And>key v. map_of kvs key = Some v \<Longrightarrow>
        \<exists>l. map_of (fst ?r) key = Some l \<and> next_seq s1 \<le> l \<and> seq_heap (snd ?r) l = seq_heap s1 v"
    by blast+
  have ext: "extends s (snd ?r)"
    using e1 ih1 by (rule extends_trans)
  have nx: "next_seq (snd ?r) = next_seq s + length (kv # kvs)"
    using ih2 by (simp add: n1)
  have old: "seq_heap (snd ?r) r = seq_heap s1 r" if "r < next_seq s1" for r
    using ih1 that by (simp add: extends_def)
  have nk: "map_of kvs k = None"
    using Cons.prems(2) by (simp add: kv map_of_eq_None_iff)
  have none: "map_of (fst ?r) key = map_of d key" if "map_of (kv # kvs) key = None" for key
  proof -
    from that have "key \<noteq> k" "map_of kvs key = None"
      by (auto simp: kv split: if_splits)
    then show ?thesis using ih3 [of key] by (simp add: d1_def update_conv')
  qed
  have some: "\<exists>l. map_of (fst ?r) key = Some l \<and> next_seq s \<le> l \<and>
                  seq_heap (snd ?r) l = seq_heap s w"
    if "map_of (kv # kvs) key = Some w" for key w
  proof (cases "key = k")
    case True
    then have w: "w = v" using that by (simp add: kv)
    have "map_of (fst ?r) k = Some (next_seq s)"
      using ih3 [OF nk] by (simp add: d1_def update_conv')
    moreover have "seq_heap (snd ?r) (next_seq s) = seq_heap s v"
      using old [of "next_seq s"] by (simp add: n1 s1_def)
    ultimately show ?thesis using True w by simp
  next
    case False
    then have m: "map_of kvs key = Some w" using that by (simp add: kv)
    from ih4 [OF m] obtain l where l: "map_of (fst ?r) key = Some l" "next_seq s1 \<le> l"
      "seq_heap (snd ?r) l = seq_heap s1 w"
      by blast
    have "(key, w) \<in> set kvs" using m by (rule map_of_SomeD)
    then have "w < next_seq s"
      using Cons.prems(1) by auto
    then have "seq_heap s1 w = seq_heap s w"
      by (simp add: s1_def)
    with l show ?thesis by (auto simp: n1)
  qed
  show ?case
    unfolding c using ext nx none some by blast
qed

lemma wf_items_bound:
  assumes "well_formed s"
  shows "\<forall>(k, v) \<in> set (dict_of c s). v < next_seq s"
proof (clarify)
  fix k v
  assume "(k, v) \<in> set (dict_of c s)"
  then have "map_of (dict_of c s) k = Some v"
    using wf_keysD [OF assms, of c] by simp
  then show "v < next_seq s" using assms by (rule wf_boundD [rotated])
qed

lemma get_active_alarms_eq:
  "get_active_alarms s =
     new_dict (fst (copy_items (active_alarms s) [] s)) (snd (copy_items (active_alarms s) [] s))"
  by (simp add: get_active_alarms_def split_beta)

lemma get_active_alarms_spec:
  assumes "well_formed s"
  shows "extends s (snd (get_active_alarms s)) \<and>
         (\<forall>m. entry Active s m = None \<longrightarrow>
              map_of (returned_items (get_active_alarms s)) m = None) \<and>
         (\<forall>m xs. entry Active s m = Some xs \<longrightarrow>
              (\<exists>l. map_of (returned_items (get_active_alarms s)) m = Some l \<and> next_seq s \<le> l \<and>
                   seq_heap (snd (get_active_alarms s)) l = xs))"
proof -
  have b: "\<forall>(k, v) \<in> set (active_alarms s). v < next_seq s"
    using wf_items_bound [OF assms, of Active] by simp
  have d: "distinct (map fst (active_alarms s))"
    using wf_keysD [OF assms, of Active] by simp
  let ?c = "copy_items (active_alarms s) [] s"
  from copy_items_spec [OF b d, of "[]"]
  have 0: "extends s (snd ?c)"
    and 2: "\<And>key. map_of (active_alarms s) key = None \<Longrightarrow>
              map_of (returned_items (get_active_alarms s)) key = None"
    and 3: "\<And>key v. map_of (active_alarms s) key = Some v \<Longrightarrow>
              \<exists>l. map_of (returned_items (get_active_alarms s)) key = Some l \<and> next_seq s \<le> l \<and>
                  seq_heap (snd (get_active_alarms s)) l = seq_heap s v"
    unfolding get_active_alarms_eq by simp_all
  have 1: "extends s (snd (get_active_alarms s))"
    unfolding get_active_alarms_eq using 0 extends_new_dict by (rule extends_trans)
  show ?thesis
    using 1 2 3 by (auto simp: entry_def)
qed

lemma get_latest_process_data_eq:
  "get_latest_process_data s = new_dict (latest_process s) s"
  by (simp add: get_latest_process_data_def dict_copy_def)

lemma store_samples_eq:
  "ingest add_process_data (DataStore_init 1000 example_heap) [0, 1] = Inr store_samples"
  by (simp add: add_process_data_def DataStore_init_def example_heap_def sample_M1_def
      deque_getitem_def new_deque_def new_seq_def deque_append_def append_maxlen_def
      store_samples_def Let_def)

lemma store_samples_facts:
  "well_formed store_samples" "0 \<le> max_history_size store_samples"
  "contents Process store_samples m = (if m = ''M1'' then [0, 1] else [])"
  "process_heap store_samples = process_heap example_heap"
  "contents Alarm store_samples m = []"
proof -
  let ?s = "DataStore_init 1000 example_heap"
  have n: "0 \<le> max_history_size ?s" by (simp add: DataStore_init_def)
  have b: "int (length (contents Process ?s ''M1'')) \<le> max_history_size ?s"
    by (simp add: contents_alt DataStore_init_def)
  from ingest_process_data [OF wf_init n b, of "[0, 1]"]
  obtain s' where "ingest add_process_data ?s [0, 1] = Inr s'" "well_formed s'"
    by blast
  then show "well_formed store_samples"
    unfolding store_samples_eq by simp
  show "0 \<le> max_history_size store_samples"
    "contents Process store_samples m = (if m = ''M1'' then [0, 1] else [])"
    "process_heap store_samples = process_heap example_heap"
    "contents Alarm store_samples m = []"
    by (simp_all add: contents_alt store_samples_def example_heap_def)
qed

lemma contents_of_entries:
  "(\<And>k m. entry k s' m = (if k = k0 \<and> m = m0 \<and> entry k0 s m0 = None then Some [] else entry k s m))
   \<Longrightarrow> contents k s' m = contents k s m"
  by (simp add: contents_def)

lemma listed_emptyI:
  assumes "well_formed s" and "entry Active s m = Some []"
  shows "listed_empty m s"
  using get_active_alarms_spec [OF assms(1)] assms(2)
  unfolding listed_empty_def by blast


lemma bounded_nonneg:
  "0 \<le> max_history_size s \<Longrightarrow>
   bounded s \<longleftrightarrow> (\<forall>k m. k \<noteq> Active \<longrightarrow> int (length (contents k s m)) \<le> max_history_size s)"
  by (auto simp: bounded_def contents_def split: option.splits)

lemma bounded_frame:
  assumes "bounded s" and "max_history_size s' = max_history_size s"
    and "\<And>k m. k \<noteq> Active \<Longrightarrow> entry k s' m = entry k s m"
  shows "bounded s'"
  unfolding bounded_def using assms by (metis bounded_def)

lemma bounded_push:
  assumes "bounded s" and "0 \<le> max_history_size s" and "max_history_size s' = max_history_size s"
    and "k0 \<noteq> Active"
    and "\<And>k m. k \<noteq> Active \<Longrightarrow> entry k s' m =
           (if k = k0 \<and> m = m0
            then Some (append_maxlen (max_history_size s) (contents k0 s m0) x)
            else entry k s m)"
  shows "bounded s'"
proof -
  have "int (length (contents k0 s m0)) \<le> max_history_size s"
    using assms(1,2,4) by (simp add: bounded_nonneg)
  then have "int (length (append_maxlen (max_history_size s) (contents k0 s m0) x))
      \<le> max_history_size s"
    using assms(2) by (simp add: length_append_maxlen)
  then show ?thesis
    using assms(1,3,5) by (auto simp: bounded_def split: if_splits)
qed

lemma unique_ids_frame:
  assumes "unique_ids s" and "\<And>m. contents Active s' m = contents Active s m"
    and "\<And>a. alarm_id (alarm_heap s' a) = alarm_id (alarm_heap s a)"
  shows "unique_ids s'"
  using assms by (simp add: unique_ids_def)

lemma contents_eq_entry: "entry k s' m = entry k s m \<Longrightarrow> contents k s' m = contents k s m"
  by (simp add: contents_def)

lemma bounded_no_entry:
  "bounded s \<Longrightarrow> max_history_size s < 0 \<Longrightarrow> k \<noteq> Active \<Longrightarrow> map_of (dict_of k s) m = None"
  by (cases "map_of (dict_of k s) m") (auto simp: bounded_def entry_def)

lemma deque_getitem_negative:
  assumes "\<And>t. get t = dict_of k t" and "\<And>d t. put d t = put_dict k d t"
    and "bounded s" and "max_history_size s < 0" and "k \<noteq> Active"
  shows "deque_getitem get put s m = Inl ValueError"
  using bounded_no_entry [OF assms(3,4,5), of m]
  by (simp add: deque_getitem_eq [OF assms(1,2)] assms(4))

lemma store_inv_init: "store_inv (DataStore_init n h)"
  by (simp add: store_inv_def wf_init unique_ids_init bounded_def entry_def)

lemma contents_Active_push:
  assumes "\<And>k m. entry k s' m = (if k = k0 \<and> m = m0 then Some xs else entry k s m)"
    and "k0 \<noteq> Active"
  shows "contents Active s' m = contents Active s m"
  using assms by (simp add: contents_def)

lemma inv_push:
  assumes "store_inv s" and "0 \<le> max_history_size s" and "k0 \<noteq> Active"
    and "well_formed s'" and "same_objects s s'"
    and "\<And>k m. entry k s' m =
           (if k = k0 \<and> m = m0
            then Some (append_maxlen (max_history_size s) (contents k0 s m0) x)
            else entry k s m)"
  shows "store_inv s'"
proof -
  have n: "max_history_size s' = max_history_size s" and h: "alarm_heap s' = alarm_heap s"
    using assms(5) by (simp_all add: same_objects_def)
  have b: "bounded s" using assms(1) by (simp add: store_inv_def)
  have "bounded s'"
    using b assms(2) n assms(3) by (rule bounded_push) (simp add: assms(6))
  moreover have "unique_ids s'"
    using assms(1) contents_Active_push [of s' k0 m0 _ s, OF assms(6) assms(3)] h
    by (simp add: unique_ids_def store_inv_def)
  ultimately show ?thesis using assms(4) by (simp add: store_inv_def)
qed

lemma inv_vivify:
  assumes "store_inv s" and "k0 = Active \<or> 0 \<le> max_history_size s"
    and "well_formed s'" and "max_history_size s' = max_history_size s"
    and "\<And>a. alarm_id (alarm_heap s' a) = alarm_id (alarm_heap s a)"
    and "\<And>k m. entry k s' m =
           (if k = k0 \<and> m = m0 \<and> entry k0 s m0 = None then Some [] else entry k s m)"
  shows "store_inv s'"
proof -
  have b: "bounded s" and u: "unique_ids s"
    using assms(1) by (simp_all add: store_inv_def)
  have "bounded s'"
    unfolding bounded_def
  proof (intro allI impI)
    fix k m xs
    assume a: "k \<noteq> Active \<and> entry k s' m = Some xs"
    show "int (length xs) \<le> max_history_size s'"
    proof (cases "k = k0 \<and> m = m0 \<and> entry k0 s m0 = None")
      case True
      with a assms(2,6) show ?thesis by (auto simp: assms(4))
    next
      case False
      with a assms(6) have "entry k s m = Some xs" by auto
      with a b show ?thesis by (auto simp: bounded_def assms(4))
    qed
  qed
  moreover have "contents Active s' m = contents Active s m" for m
    by (auto simp: contents_def assms(6))
  then have "unique_ids s'"
    using u assms(5) by (simp add: unique_ids_def)
  ultimately show ?thesis using assms(3) by (simp add: store_inv_def)
qed

lemma inv_add_process_data:
  assumes "store_inv s"
  shows "store_inv (after s (add_process_data s r))"
proof (cases "max_history_size s < 0")
  case True
  have "deque_getitem process_data (\<lambda>d t. t\<lparr>process_data := d\<rparr>) s m = Inl ValueError" for m
    using assms True by (intro deque_getitem_negative [where k = Process]) (simp_all add: store_inv_def)
  then show ?thesis using assms by (simp add: add_process_data_def after_def)
next
  case False
  then have n: "0 \<le> max_history_size s" by simp
  have w: "well_formed s" using assms by (simp add: store_inv_def)
  from add_process_data_spec [OF w n, of r] obtain s' where
    s': "add_process_data s r = Inr s'" "well_formed s'" "same_objects s s'"
    "\<And>k m'. entry k s' m' =
       (if k = Process \<and> m' = ProcessData.machine_id (process_heap s r)
        then Some (append_maxlen (max_history_size s)
                     (contents Process s (ProcessData.machine_id (process_heap s r))) r)
        else entry k s m')"
    by blast
  have "store_inv s'"
    using assms n _ s'(2,3,4) by (rule inv_push) simp
  then show ?thesis by (simp add: after_def s'(1))
qed

lemma inv_add_status_data:
  assumes "store_inv s"
  shows "store_inv (after s (add_status_data s r))"
proof (cases "max_history_size s < 0")
  case True
  have "deque_getitem status_data (\<lambda>d t. t\<lparr>status_data := d\<rparr>) s m = Inl ValueError" for m
    using assms True by (intro deque_getitem_negative [where k = Status]) (simp_all add: store_inv_def)
  then show ?thesis using assms by (simp add: add_status_data_def after_def)
next
  case False
  then have n: "0 \<le> max_history_size s" by simp
  have w: "well_formed s" using assms by (simp add: store_inv_def)
  from add_status_data_spec [OF w n, of r] obtain s' where
    s': "add_status_data s r = Inr s'" "well_formed s'" "same_objects s s'"
    "\<And>k m'. entry k s' m' =
       (if k = Status \<and> m' = StatusData.machine_id (status_heap s r)
        then Some (append_maxlen (max_history_size s)
                     (contents Status s (StatusData.machine_id (status_heap s r))) r)
        else entry k s m')"
    by blast
  have "store_inv s'"
    using assms n _ s'(2,3,4) by (rule inv_push) simp
  then show ?thesis by (simp add: after_def s'(1))
qed

lemma inv_add_ml_alert:
  assumes "store_inv s"
  shows "store_inv (after s (add_ml_alert s r))"
proof (cases "max_history_size s < 0")
  case True
  have "deque_getitem ml_alerts (\<lambda>d t. t\<lparr>ml_alerts := d\<rparr>) s m = Inl ValueError" for m
    using assms True by (intro deque_getitem_negative [where k = Advisory]) (simp_all add: store_inv_def)
  then show ?thesis using assms by (simp add: add_ml_alert_def after_def)
next
  case False
  then have n: "0 \<le> max_history_size s" by simp
  have w: "well_formed s" using assms by (simp add: store_inv_def)
  from add_ml_alert_spec [OF w n, of r] obtain s' where
    s': "add_ml_alert s r = Inr s'" "well_formed s'" "same_objects s s'"
    "\<And>k m'. entry k s' m' =
       (if k = Advisory \<and> m' = MLAlert.machine_id (ml_alert_heap s r)
        then Some (append_maxlen (max_history_size s)
                     (contents Advisory s (MLAlert.machine_id (ml_alert_heap s r))) r)
        else entry k s m')"
    by blast
  have "store_inv s'"
    using assms n _ s'(2,3,4) by (rule inv_push) simp
  then show ?thesis by (simp add: after_def s'(1))
qed

lemma inv_add_command:
  assumes "store_inv s"
  shows "store_inv (after s (add_command s r))"
proof (cases "max_history_size s < 0")
  case True
  have "deque_getitem commands (\<lambda>d t. t\<lparr>commands := d\<rparr>) s m = Inl ValueError" for m
    using assms True by (intro deque_getitem_negative [where k = Command]) (simp_all add: store_inv_def)
  then show ?thesis using assms by (simp add: add_command_def after_def)
next
  case False
  then have n: "0 \<le> max_history_size s" by simp
  have w: "well_formed s" using assms by (simp add: store_inv_def)
  from add_command_spec [OF w n, of r] obtain s' where
    s': "add_command s r = Inr s'" "well_formed s'" "same_objects s s'"
    "\<And>k m'. entry k s' m' =
       (if k = Command \<and> m' = ControlCommand.machine_id (command_heap s r)
        then Some (append_maxlen (max_history_size s)
                     (contents Command s (ControlCommand.machine_id (command_heap s r))) r)
        else entry k s m')"
    by blast
  have "store_inv s'"
    using assms n _ s'(2,3,4) by (rule inv_push) simp
  then show ?thesis by (simp add: after_def s'(1))
qed

lemma inv_add_alarm_data:
  assumes "store_inv s"
  shows "store_inv (after s (add_alarm_data s r))"
proof (cases "max_history_size s < 0")
  case True
  have "deque_getitem alarm_data (\<lambda>d t. t\<lparr>alarm_data := d\<rparr>) s m = Inl ValueError" for m
    using assms True by (intro deque_getitem_negative [where k = Alarm]) (simp_all add: store_inv_def)
  then show ?thesis using assms by (simp add: add_alarm_data_def after_def Let_def)
next
  case False
  then have n: "0 \<le> max_history_size s" by simp
  have w: "well_formed s" and u: "unique_ids s" and b: "bounded s"
    using assms by (simp_all add: store_inv_def)
  from add_alarm_data_spec [OF w n, of r] obtain s' where
    s': "add_alarm_data s r = Inr s'" "well_formed s'" "same_objects s s'"
    "\<And>k m'. k \<noteq> Active \<Longrightarrow> entry k s' m' =
       (if k = Alarm \<and> m' = machine_id (alarm_heap s r)
        then Some (append_maxlen (max_history_size s)
                     (contents Alarm s (machine_id (alarm_heap s r))) r)
        else entry k s m')"
    by blast
  have "unique_ids s'"
    using w n u s'(1) by (rule add_alarm_data_unique_ids)
  moreover have "max_history_size s' = max_history_size s"
    using s'(3) by (simp add: same_objects_def)
  with b n have "bounded s'"
    by (rule bounded_push [where ?k0.0 = Alarm]) (simp_all add: s'(4))
  ultimately have "store_inv s'" using s'(2) by (simp add: store_inv_def)
  then show ?thesis by (simp add: after_def s'(1))
qed

lemma max_history_size_getitem [simp]:
  "max_history_size (snd (active_alarms_getitem s m)) = max_history_size s"
  by (simp add: active_alarms_getitem_eq split: option.splits)

lemma max_history_size_acknowledge [simp]:
  "max_history_size (snd (acknowledge_alarm s m a u t)) = max_history_size s"
proof -
  obtain l s1 where g: "active_alarms_getitem s m = (l, s1)"
    by (cases "active_alarms_getitem s m")
  from max_history_size_getitem [of s m] have "max_history_size s1 = max_history_size s"
    by (simp add: g)
  then show ?thesis
    by (simp add: acknowledge_alarm_def g split: option.splits)
qed

lemma inv_acknowledge_alarm:
  assumes "store_inv s"
  shows "store_inv (snd (acknowledge_alarm s m a u t))"
proof -
  have w: "well_formed s" using assms by (simp add: store_inv_def)
  let ?s' = "snd (acknowledge_alarm s m a u t)"
  have "well_formed ?s' \<and> (\<forall>b. alarm_id (alarm_heap ?s' b) = alarm_id (alarm_heap s b)) \<and>
      (\<forall>k m'. entry k ?s' m' =
         (if k = Active \<and> m' = m \<and> entry Active s m = None then Some [] else entry k s m'))"
  proof (cases "first_with_id (alarm_heap s) a (contents Active s m)")
    case None
    then have "\<forall>b \<in> set (contents Active s m). alarm_id (alarm_heap s b) \<noteq> a"
      by (simp add: first_with_id_None)
    from acknowledge_alarm_absent [OF w this, of u t] show ?thesis by auto
  next
    case (Some b)
    from acknowledge_alarm_present [OF w Some, of u t] show ?thesis by auto
  qed
  then show ?thesis
    by (intro inv_vivify [where ?k0.0 = Active and ?m0.0 = m, OF assms]) simp_all
qed

lemma distinct_map_remove1:
  "distinct (map f xs) \<Longrightarrow> distinct (map f (remove1 x xs))"
proof (induction xs)
  case Nil
  then show ?case by simp
next
  case (Cons y ys)
  have "set (remove1 x ys) \<subseteq> set ys" by (rule set_remove1_subset)
  with Cons show ?case by auto
qed

lemma inv_resolve_alarm:
  assumes "store_inv s"
  shows "store_inv (after_result s (resolve_alarm s m a u t))"
proof (cases "first_with_id (alarm_heap s) a (contents Active s m)")
  case None
  have w: "well_formed s" using assms by (simp add: store_inv_def)
  from None have "\<forall>b \<in> set (contents Active s m). alarm_id (alarm_heap s b) \<noteq> a"
    by (simp add: first_with_id_None)
  from resolve_alarm_absent [OF w this, of u t]
  obtain s' where s': "resolve_alarm s m a u t = Inr (False, s')" "well_formed s'"
    "\<And>k m'. entry k s' m' =
       (if k = Active \<and> m' = m \<and> entry Active s m = None then Some [] else entry k s m')"
    "alarm_heap s' = alarm_heap s" "max_history_size s' = max_history_size s"
    by blast
  have "store_inv s'"
    using assms by (rule inv_vivify [where ?k0.0 = Active and ?m0.0 = m]) (simp_all add: s')
  then show ?thesis by (simp add: after_result_def s'(1))
next
  case (Some b)
  have w: "well_formed s" and ui: "unique_ids s" and bd: "bounded s"
    using assms by (simp_all add: store_inv_def)
  from resolve_alarm_present [OF w Some, of u t]
  obtain s' where s': "resolve_alarm s m a u t = Inr (True, s')" "well_formed s'"
    "\<And>k m'. contents k s' m' =
       (if k = Active \<and> m' = m then remove1 b (contents Active s m) else contents k s m')"
    "\<And>k m'. k \<noteq> Active \<Longrightarrow> entry k s' m' = entry k s m'"
    "max_history_size s' = max_history_size s"
    "alarm_heap s' = (alarm_heap s)(b := (alarm_heap s b)\<lparr>resolved := True, resolved_at := Some t\<rparr>)"
    by blast
  have ids: "alarm_id (alarm_heap s' c) = alarm_id (alarm_heap s c)" for c
    by (simp add: s'(6))
  have "bounded s'"
    using bd s'(5) s'(4) by (rule bounded_frame)
  moreover have "unique_ids s'"
    using ui by (auto simp: unique_ids_def s'(3) ids distinct_map_remove1)
  ultimately have "store_inv s'" using s'(2) by (simp add: store_inv_def)
  then show ?thesis by (simp add: after_result_def s'(1))
qed

lemma inv_extends:
  assumes "store_inv s" and "extends s s'"
  shows "store_inv s'"
proof -
  have w: "well_formed s" and ui: "unique_ids s" and bd: "bounded s"
    using assms(1) by (simp_all add: store_inv_def)
  have so: "same_objects s s'" using assms(2) by (simp add: extends_def)
  have e: "entry k s' m = entry k s m" for k m
    using w assms(2) by (rule entry_extends)
  have "well_formed s'" using w assms(2) by (rule wf_extends)
  moreover have "bounded s'"
    using so by (intro bounded_frame [OF bd]) (simp_all add: same_objects_def e)
  moreover have "unique_ids s'"
    using so by (intro unique_ids_frame [OF ui]) (simp_all add: same_objects_def contents_def e)
  ultimately show ?thesis by (simp add: store_inv_def)
qed

lemma inv_get_active_alarms:
  assumes "store_inv s"
  shows "store_inv (snd (get_active_alarms s))"
proof -
  have "well_formed s" using assms by (simp add: store_inv_def)
  then have "extends s (snd (get_active_alarms s))"
    using get_active_alarms_spec [of s] by blast
  with assms show ?thesis by (rule inv_extends)
qed

lemma inv_get_latest_process_data:
  assumes "store_inv s"
  shows "store_inv (snd (get_latest_process_data s))"
  unfolding get_latest_process_data_eq using assms extends_new_dict by (rule inv_extends)

lemma inv_get_machine_alarms:
  assumes "store_inv s"
  shows "store_inv (snd (get_machine_alarms s m))"
proof -
  have w: "well_formed s" using assms by (simp add: store_inv_def)
  from get_machine_alarms_spec [OF w, of m]
  obtain l s' where s': "get_machine_alarms s m = (l, s')" "well_formed s'"
    "\<And>k m'. entry k s' m' =
       (if k = Active \<and> m' = m \<and> entry Active s m = None then Some [] else entry k s m')"
    "same_objects s s'"
    by blast
  have "store_inv s'"
    using s'(4)
    by (intro inv_vivify [where ?k0.0 = Active and ?m0.0 = m, OF assms])
       (simp_all add: s'(2,3) same_objects_def)
  then show ?thesis by (simp add: s'(1))
qed

lemma inv_get_process_history:
  assumes "store_inv s"
  shows "store_inv (after_result s (get_process_history s m n))"
proof (cases "max_history_size s < 0")
  case True
  have "deque_getitem process_data (\<lambda>d t. t\<lparr>process_data := d\<rparr>) s m = Inl ValueError"
    using assms True by (intro deque_getitem_negative [where k = Process]) (simp_all add: store_inv_def)
  then show ?thesis using assms by (simp add: get_process_history_def after_result_def)
next
  case False
  then have n: "0 \<le> max_history_size s" by simp
  have w: "well_formed s" using assms by (simp add: store_inv_def)
  from get_process_history_spec [OF w n, of m n]
  obtain l s' where s': "get_process_history s m n = Inr (l, s')" "well_formed s'"
    "\<And>k' m'. entry k' s' m' =
       (if k' = Process \<and> m' = m \<and> entry Process s m = None then Some [] else entry k' s m')"
    "same_objects s s'"
    by blast
  have "store_inv s'"
    using n s'(4)
    by (intro inv_vivify [where ?k0.0 = Process and ?m0.0 = m, OF assms])
       (simp_all add: s'(2,3) same_objects_def)
  then show ?thesis by (simp add: after_result_def s'(1))
qed

lemma inv_get_alarm_history:
  assumes "store_inv s"
  shows "store_inv (after_result s (get_alarm_history s m n))"
proof (cases "max_history_size s < 0")
  case True
  have "deque_getitem alarm_data (\<lambda>d t. t\<lparr>alarm_data := d\<rparr>) s m = Inl ValueError"
    using assms True by (intro deque_getitem_negative [where k = Alarm]) (simp_all add: store_inv_def)
  then show ?thesis using assms by (simp add: get_alarm_history_def after_result_def)
next
  case False
  then have n: "0 \<le> max_history_size s" by simp
  have w: "well_formed s" using assms by (simp add: store_inv_def)
  from get_alarm_history_spec [OF w n, of m n]
  obtain l s' where s': "get_alarm_history s m n = Inr (l, s')" "well_formed s'"
    "\<And>k' m'. entry k' s' m' =
       (if k' = Alarm \<and> m' = m \<and> entry Alarm s m = None then Some [] else entry k' s m')"
    "same_objects s s'"
    by blast
  have "store_inv s'"
    using n s'(4)
    by (intro inv_vivify [where ?k0.0 = Alarm and ?m0.0 = m, OF assms])
       (simp_all add: s'(2,3) same_objects_def)
  then show ?thesis by (simp add: after_result_def s'(1))
qed

lemma inv_get_machine_ml_alerts:
  assumes "store_inv s"
  shows "store_inv (after_result s (get_machine_ml_alerts s m t))"
proof (cases "max_history_size s < 0")
  case True
  have "deque_getitem ml_alerts (\<lambda>d t. t\<lparr>ml_alerts := d\<rparr>) s m = Inl ValueError"
    using assms True by (intro deque_getitem_negative [where k = Advisory]) (simp_all add: store_inv_def)
  then show ?thesis using assms by (simp add: get_machine_ml_alerts_def after_result_def)
next
  case False
  then have n: "0 \<le> max_history_size s" by simp
  have w: "well_formed s" using assms by (simp add: store_inv_def)
  from deque_getitem_spec [of ml_alerts Advisory "\<lambda>d t. t\<lparr>ml_alerts := d\<rparr>" s m, OF _ _ w n]
  obtain q s1 where g: "deque_getitem ml_alerts (\<lambda>d t. t\<lparr>ml_alerts := d\<rparr>) s m = Inr (q, s1)"
    and w1: "well_formed s1"
    and e1: "\<And>k' m'. entry k' s1 m' =
       (if k' = Advisory \<and> m' = m \<and> entry Advisory s m = None then Some [] else entry k' s m')"
    and f1: "alarm_heap s1 = alarm_heap s" "max_history_size s1 = max_history_size s"
    by auto
  have "store_inv s1"
    using n
    by (intro inv_vivify [where ?k0.0 = Advisory and ?m0.0 = m, OF assms]) (simp_all add: w1 e1 f1)
  define s2 where "s2 = snd (new_seq (seq_heap s1 q) s1)"
  define s3 where "s3 = snd (new_seq (filter (\<lambda>alert. MLAlert.timestamp (ml_alert_heap s2 alert)
                                        > t - 86400000000) (seq_heap s2 (next_seq s1))) s2)"
  have r: "get_machine_ml_alerts s m t = Inr (next_seq s2, s3)"
    by (simp add: get_machine_ml_alerts_def g new_seq_def s2_def s3_def)
  have "extends s1 s2" "extends s2 s3"
    unfolding s2_def s3_def by (rule extends_new_seq)+
  then have "extends s1 s3" by (rule extends_trans)
  with \<open>store_inv s1\<close> have "store_inv s3" by (rule inv_extends)
  then show ?thesis by (simp add: after_result_def r)
qed

lemma cleanup_keys_inv:
  assumes "store_inv s" and "0 \<le> max_history_size s"
  shows "\<exists>s'. cleanup_keys c ms s = Inr s' \<and> store_inv s' \<and>
           max_history_size s' = max_history_size s"
  using assms
proof (induction ms arbitrary: s)
  case Nil
  then show ?case by simp
next
  case (Cons m ms)
  have w: "well_formed s" and ui: "unique_ids s" and bd: "bounded s"
    using Cons.prems(1) by (simp_all add: store_inv_def)
  note n = Cons.prems(2)
  from deque_getitem_spec [of ml_alerts Advisory "\<lambda>d t. t\<lparr>ml_alerts := d\<rparr>" s m, OF _ _ w n]
  obtain q s1 where g: "deque_getitem ml_alerts (\<lambda>d t. t\<lparr>ml_alerts := d\<rparr>) s m = Inr (q, s1)"
    and w1: "well_formed s1"
    and e1: "\<And>k' m'. entry k' s1 m' =
       (if k' = Advisory \<and> m' = m \<and> entry Advisory s m = None then Some [] else entry k' s m')"
    and f1: "alarm_heap s1 = alarm_heap s" "max_history_size s1 = max_history_size s"
    by auto
  define xs where "xs = filter (\<lambda>alert. MLAlert.timestamp (ml_alert_heap s1 alert) > c) (seq_heap s1 q)"
  define s2 where "s2 = snd (new_seq xs s1)"
  define ys where "ys = drop (length xs - nat (max_history_size s)) xs"
  define s4 where "s4 = bind_fresh Advisory m ys s2"
  have e12: "extends s1 s2" unfolding s2_def by (rule extends_new_seq)
  have w2: "well_formed s2" using w1 e12 by (rule wf_extends)
  have f2: "alarm_heap s2 = alarm_heap s" "max_history_size s2 = max_history_size s"
    by (simp_all add: s2_def f1)
  have step: "cleanup_keys c (m # ms) s = cleanup_keys c ms s4"
    using n
    by (simp add: g new_seq_def new_deque_from_def s2_def s4_def bind_fresh_def xs_def ys_def f1)
  have w4: "well_formed s4" unfolding s4_def using w2 by (rule wf_bind_fresh)
  have e4: "entry k s4 m' = (if k = Advisory \<and> m' = m then Some ys else entry k s m')" for k m'
    using entry_extends [OF w1 e12] by (auto simp: s4_def entry_bind_fresh [OF w2] e1)
  have f4: "alarm_heap s4 = alarm_heap s" "max_history_size s4 = max_history_size s"
    by (simp_all add: s4_def f2)
  have ly: "int (length ys) \<le> max_history_size s"
    using n by (simp add: ys_def)
  have "bounded s4"
    using bd ly by (auto simp: bounded_def e4 f4 split: if_splits)
  moreover have "unique_ids s4"
    using ui by (rule unique_ids_frame) (simp_all add: contents_def e4 f4)
  ultimately have i4: "store_inv s4" using w4 by (simp add: store_inv_def)
  have n4: "0 \<le> max_history_size s4" using n by (simp add: f4)
  from Cons.IH [OF i4 n4] show ?case
    unfolding step by (simp add: f4)
qed

lemma no_entries_empty:
  assumes "\<And>m. map_of al m = None"
  shows "al = []"
proof (cases al)
  case Nil
  then show ?thesis .
next
  case (Cons p ps)
  with assms [of "fst p"] show ?thesis by (cases p) simp
qed

lemma inv_cleanup_old_data:
  assumes "store_inv s"
  shows "store_inv (after s (cleanup_old_data s t))"
proof (cases "max_history_size s < 0")
  case True
  have "map_of (dict_of Advisory s) m = None" for m
    using assms True by (intro bounded_no_entry) (simp_all add: store_inv_def)
  then have "ml_alerts s = []"
    by (intro no_entries_empty) simp
  then show ?thesis using assms by (simp add: cleanup_old_data_def after_def)
next
  case False
  then have "0 \<le> max_history_size s" by simp
  from cleanup_keys_inv [OF assms this, of t "map fst (ml_alerts s)"]
  show ?thesis by (auto simp: cleanup_old_data_def after_def)
qed

lemma inv_exec: "store_inv s \<Longrightarrow> store_inv (exec s c)"
  by (cases c)
     (simp_all add: inv_add_process_data inv_add_alarm_data inv_add_status_data inv_add_ml_alert
        inv_add_command inv_acknowledge_alarm inv_resolve_alarm inv_cleanup_old_data
        inv_get_process_history inv_get_alarm_history inv_get_active_alarms
        inv_get_latest_process_data inv_get_machine_alarms inv_get_machine_ml_alerts)

lemma inv_run: "store_inv s \<Longrightarrow> store_inv (run s cs)"
  unfolding run_def by (induction cs arbitrary: s) (simp_all add: inv_exec)

lemma capacity_deque_getitem:
  assumes "\<And>d t. max_history_size (put d t) = max_history_size t"
    and "deque_getitem get put s m = Inr (q, s1)"
  shows "max_history_size s1 = max_history_size s"
  using assms(2)
  by (auto simp: deque_getitem_def new_deque_def new_seq_def assms(1)
      split: option.splits if_splits)

lemma capacity_add_process_data:
  "max_history_size (after s (add_process_data s r)) = max_history_size s"
  by (auto simp: add_process_data_def after_def deque_append_def Let_def
      split: sum.splits dest!: capacity_deque_getitem [rotated])

lemma capacity_add_status_data:
  "max_history_size (after s (add_status_data s r)) = max_history_size s"
  by (auto simp: add_status_data_def after_def deque_append_def Let_def
      split: sum.splits dest!: capacity_deque_getitem [rotated])

lemma capacity_add_ml_alert:
  "max_history_size (after s (add_ml_alert s r)) = max_history_size s"
  by (auto simp: add_ml_alert_def after_def deque_append_def Let_def
      split: sum.splits dest!: capacity_deque_getitem [rotated])

lemma capacity_add_command:
  "max_history_size (after s (add_command s r)) = max_history_size s"
  by (auto simp: add_command_def after_def deque_append_def Let_def
      split: sum.splits dest!: capacity_deque_getitem [rotated])

lemma capacity_list_remove: "list_remove l x s = Inr s' \<Longrightarrow> max_history_size s' = max_history_size s"
  by (auto simp: list_remove_def split: option.splits)

lemma capacity_add_alarm_data:
  "max_history_size (after s (add_alarm_data s r)) = max_history_size s"
proof (cases "add_alarm_data s r")
  case (Inl e)
  then show ?thesis by (simp add: after_def)
next
  case (Inr s')
  let ?m = "machine_id (alarm_heap s r)"
  from Inr obtain q s1 where
    g: "deque_getitem alarm_data (\<lambda>d t. t\<lparr>alarm_data := d\<rparr>) s ?m = Inr (q, s1)"
    by (auto simp: add_alarm_data_def Let_def split: sum.splits)
  have 1: "max_history_size s1 = max_history_size s"
    using g by (rule capacity_deque_getitem [rotated]) simp
  obtain l s3 where g3: "active_alarms_getitem (deque_append q r s1) ?m = (l, s3)"
    by (cases "active_alarms_getitem (deque_append q r s1) ?m")
  have "max_history_size s3 = max_history_size (deque_append q r s1)"
    using max_history_size_getitem [of "deque_append q r s1" ?m] by (simp add: g3)
  then have 3: "max_history_size s3 = max_history_size s"
    by (simp add: 1 deque_append_def)
  show ?thesis
    using Inr 3
    by (auto simp: add_alarm_data_def Let_def g g3 after_def list_append_def new_seq_def
        split: if_splits option.splits sum.splits dest!: capacity_list_remove)
qed

lemma capacity_resolve_alarm:
  "max_history_size (after_result s (resolve_alarm s m a u t)) = max_history_size s"
proof -
  obtain l s1 where g: "active_alarms_getitem s m = (l, s1)"
    by (cases "active_alarms_getitem s m")
  have 1: "max_history_size s1 = max_history_size s"
    using max_history_size_getitem [of s m] by (simp add: g)
  show ?thesis
    using 1
    by (auto simp: resolve_alarm_def g after_result_def Let_def
        split: option.splits sum.splits dest!: capacity_list_remove)
qed

lemma capacity_cleanup_keys:
  "cleanup_keys c ms s = Inr s' \<Longrightarrow> max_history_size s' = max_history_size s"
proof (induction ms arbitrary: s)
  case Nil
  then show ?case by simp
next
  case (Cons m ms)
  from Cons.prems obtain q s1 where
    g: "deque_getitem ml_alerts (\<lambda>d t. t\<lparr>ml_alerts := d\<rparr>) s m = Inr (q, s1)"
    by (auto split: sum.splits)
  have 1: "max_history_size s1 = max_history_size s"
    using g by (rule capacity_deque_getitem [rotated]) simp
  from Cons.prems obtain s4 where "cleanup_keys c ms s4 = Inr s'"
    "max_history_size s4 = max_history_size s1"
    by (auto simp: g new_seq_def new_deque_from_def Let_def split: sum.splits if_splits)
  with Cons.IH [of s4] 1 show ?case by simp
qed

lemma capacity_cleanup_old_data:
  "max_history_size (after s (cleanup_old_data s t)) = max_history_size s"
  by (auto simp: cleanup_old_data_def after_def split: sum.splits dest: capacity_cleanup_keys)

lemma capacity_get_process_history:
  "max_history_size (after_result s (get_process_history s m n)) = max_history_size s"
  by (auto simp: get_process_history_def after_result_def new_seq_def Let_def
      split: sum.splits if_splits dest!: capacity_deque_getitem [rotated])

lemma capacity_get_alarm_history:
  "max_history_size (after_result s (get_alarm_history s m n)) = max_history_size s"
  by (auto simp: get_alarm_history_def after_result_def new_seq_def Let_def
      split: sum.splits if_splits dest!: capacity_deque_getitem [rotated])

lemma capacity_get_machine_ml_alerts:
  "max_history_size (after_result s (get_machine_ml_alerts s m t)) = max_history_size s"
  by (auto simp: get_machine_ml_alerts_def after_result_def new_seq_def Let_def
      split: sum.splits if_splits dest!: capacity_deque_getitem [rotated])

lemma capacity_copy_items: "max_history_size (snd (copy_items kvs d s)) = max_history_size s"
  by (induction kvs d s rule: copy_items.induct) (simp_all add: new_seq_def)

lemma capacity_get_machine_alarms:
  "max_history_size (snd (get_machine_alarms s m)) = max_history_size s"
proof -
  obtain l s1 where g: "active_alarms_getitem s m = (l, s1)"
    by (cases "active_alarms_getitem s m")
  have "max_history_size s1 = max_history_size s"
    using max_history_size_getitem [of s m] by (simp add: g)
  then show ?thesis by (simp add: get_machine_alarms_def g new_seq_def)
qed

lemma capacity_exec: "max_history_size (exec s c) = max_history_size s"
  by (cases c)
     (simp_all add: capacity_add_process_data capacity_add_alarm_data capacity_add_status_data
        capacity_add_ml_alert capacity_add_command capacity_resolve_alarm
        capacity_cleanup_old_data capacity_get_process_history capacity_get_alarm_history
        capacity_get_machine_ml_alerts capacity_get_machine_alarms get_active_alarms_eq
        get_latest_process_data_eq capacity_copy_items)

lemma capacity_run: "max_history_size (run s cs) = max_history_size s"
  unfolding run_def by (induction cs arbitrary: s) (simp_all add: capacity_exec)

lemma add_appends:
  assumes "well_formed s" and "0 \<le> max_history_size s" and "k \<noteq> Active"
  shows "\<exists>s'. add k s r = Inr s' \<and>
           contents k s' (machine_of k s r) =
             append_maxlen (max_history_size s) (contents k s (machine_of k s r)) r"
proof (cases k)
  case Process
  with add_process_data_spec [OF assms(1,2), of r] show ?thesis
    by (auto simp: contents_def)
next
  case Alarm
  with add_alarm_data_spec [OF assms(1,2), of r] show ?thesis
    by auto
next
  case Status
  with add_status_data_spec [OF assms(1,2), of r] show ?thesis
    by (auto simp: contents_def)
next
  case Advisory
  with add_ml_alert_spec [OF assms(1,2), of r] show ?thesis
    by (auto simp: contents_def)
next
  case Command
  with add_command_spec [OF assms(1,2), of r] show ?thesis
    by (auto simp: contents_def)
next
  case Active
  with assms(3) show ?thesis by simp
qed

lemma append_maxlen_fifo:
  "(int (length xs) < n \<longrightarrow> append_maxlen n xs x = xs @ [x]) \<and>
   (int (length xs) = n \<longrightarrow> append_maxlen n xs x = tl (xs @ [x]))"
  by (auto simp: append_maxlen_def Let_def)

lemma update_last_ping_sel [simp]:
  "active_connections (update_last_ping c t M) = active_connections M"
  "map fst (connection_info (update_last_ping c t M)) = map fst (connection_info M)"
proof -
  show "active_connections (update_last_ping c t M) = active_connections M"
    by (simp add: update_last_ping_def split: option.splits)
  show "map fst (connection_info (update_last_ping c t M)) = map fst (connection_info M)"
  proof (cases "map_of (connection_info M) c")
    case None
    then show ?thesis by (simp add: update_last_ping_def)
  next
    case (Some i)
    then have "c \<in> fst ` set (connection_info M)"
      by (auto dest: map_of_SomeD simp: rev_image_eqI)
    then show ?thesis
      using Some by (simp add: update_last_ping_def update_keys)
  qed
qed

lemma send_all_spec:
  assumes "\<forall>c \<in> set cs. net c \<noteq> Raised BaseException"
  shows "\<exists>M1. send_all net msg cs M dis sent =
           (None, M1, dis @ filter (\<lambda>c. \<not> delivered (net c)) cs,
            sent @ map (\<lambda>c. (c, msg)) (filter (\<lambda>c. delivered (net c)) cs)) \<and>
           active_connections M1 = active_connections M \<and>
           map fst (connection_info M1) = map fst (connection_info M)"
  using assms
proof (induction cs arbitrary: M dis sent)
  case Nil
  then show ?case by simp
next
  case (Cons c cs)
  then have r: "\<forall>c \<in> set cs. net c \<noteq> Raised BaseException" by simp
  show ?case
  proof (cases "net c")
    case (Sent t)
    from Cons.IH [OF r, of "update_last_ping c t M" dis "sent @ [(c, msg)]"]
    show ?thesis by (auto simp: Sent)
  next
    case (Raised e)
    with Cons.prems have e: "e = Exception" by (cases e) auto
    from Cons.IH [OF r, of M "dis @ [c]" sent]
    show ?thesis by (auto simp: Raised e)
  qed
qed

lemma delete_absent: "map_of al k = None \<Longrightarrow> AList.delete k al = al"
  by (induction al) (auto split: if_splits)

lemma disconnect_eq:
  "disconnect M c =
     M\<lparr>active_connections := remove1 c (active_connections M),
       connection_info := AList.delete c (connection_info M)\<rparr>"
  by (cases "map_of (connection_info M) c")
     (auto simp: disconnect_def Let_def remove1_idem delete_absent)

lemma fold_disconnect:
  "active_connections (fold (\<lambda>c M'. disconnect M' c) ds M) = fold remove1 ds (active_connections M) \<and>
   map fst (connection_info (fold (\<lambda>c M'. disconnect M' c) ds M)) =
     filter (\<lambda>c. c \<notin> set ds) (map fst (connection_info M))"
proof (induction ds arbitrary: M)
  case Nil
  then show ?case by simp
next
  case (Cons d ds)
  have "map fst (AList.delete d al) = filter (\<lambda>c. c \<noteq> d) (map fst al)" for al :: "(WebSocket \<times> info) list"
    by (induction al) auto
  then show ?case
    using Cons [of "disconnect M d"] by (simp add: disconnect_eq conj_commute)
qed

lemma fold_remove1_failed:
  assumes "\<forall>z \<in> set zs. \<not> Q z"
  shows "fold remove1 (filter Q xs) (zs @ xs) = zs @ filter (\<lambda>x. \<not> Q x) xs"
  using assms
proof (induction xs arbitrary: zs)
  case Nil
  then show ?case by simp
next
  case (Cons x xs)
  show ?case
  proof (cases "Q x")
    case True
    with Cons.prems have "x \<notin> set zs" by auto
    then have "remove1 x (zs @ x # xs) = zs @ xs"
      by (simp add: remove1_append)
    with Cons.IH [OF Cons.prems] True show ?thesis by simp
  next
    case False
    with Cons.prems have "\<forall>z \<in> set (zs @ [x]). \<not> Q z" by simp
    from Cons.IH [OF this] False show ?thesis by simp
  qed
qed

lemma attribute_items_heap_upd [simp]:
  "attribute_items a (s\<lparr>dict_heap := dh\<rparr>) = attribute_items a s"
  "attribute_items a (s\<lparr>next_dict := nd\<rparr>) = attribute_items a s"
  "attribute_items a (s\<lparr>seq_heap := f\<rparr>) = attribute_items a s"
  by (cases a; simp)+


lemma entry_dict_heap_upd [simp]: "entry k (s\<lparr>dict_heap := dh\<rparr>) m = entry k s m"
  by (simp add: entry_def)




lemma acknowledge_resolve_present:
  assumes "well_formed s" and "unique_ids s"
    and "a \<in> set (contents Active s m)" and "alarm_id (alarm_heap s a) = aid"
  shows "\<exists>s1 s2. acknowledge_alarm s m aid u t1 = (True, s1) \<and>
           resolve_alarm s1 m aid u t2 = Inr (True, s2) \<and>
           contents Active s2 m = remove1 a (contents Active s m) \<and>
           a \<notin> set (contents Active s2 m) \<and>
           (\<forall>b \<in> set (contents Active s2 m). alarm_id (alarm_heap s2 b) \<noteq> aid) \<and>
           contents Alarm s2 m = contents Alarm s m \<and>
           alarm_heap s2 = (alarm_heap s)(a := (alarm_heap s a)
             \<lparr>acknowledged := True, acknowledged_by := Some u, acknowledged_at := Some t1,
              resolved := True, resolved_at := Some t2\<rparr>)"
proof -
  have d: "distinct (map (\<lambda>a. alarm_id (alarm_heap s a)) (contents Active s m))"
    using assms(2) by (simp add: unique_ids_def)
  have f: "first_with_id (alarm_heap s) aid (contents Active s m) = Some a"
    using d assms(3,4) by (rule first_with_id_unique)
  from acknowledge_alarm_present [OF assms(1) f, of u t1]
  obtain s1 where 1: "acknowledge_alarm s m aid u t1 = (True, s1)" "well_formed s1"
    "\<And>k m'. contents k s1 m' = contents k s m'"
    "alarm_heap s1 = (alarm_heap s)(a := (alarm_heap s a)
        \<lparr>acknowledged := True, acknowledged_by := Some u, acknowledged_at := Some t1\<rparr>)"
    by blast
  have ids: "alarm_id (alarm_heap s1 b) = alarm_id (alarm_heap s b)" for b
    by (simp add: 1(4))
  have "first_with_id (alarm_heap s1) aid (contents Active s m) =
        first_with_id (alarm_heap s) aid (contents Active s m)"
    by (rule first_with_id_cong) (rule ids)
  then have f1: "first_with_id (alarm_heap s1) aid (contents Active s1 m) = Some a"
    using f by (simp add: 1(3))
  from resolve_alarm_present [OF 1(2) f1, of u t2]
  obtain s2 where 2: "resolve_alarm s1 m aid u t2 = Inr (True, s2)"
    "\<And>k m'. contents k s2 m' =
        (if k = Active \<and> m' = m then remove1 a (contents Active s1 m) else contents k s1 m')"
    "alarm_heap s2 = (alarm_heap s1)(a := (alarm_heap s1 a)\<lparr>resolved := True, resolved_at := Some t2\<rparr>)"
    by blast
  have r: "remove1 a (contents Active s m) =
      filter (\<lambda>y. alarm_id (alarm_heap s y) \<noteq> aid) (contents Active s m)"
    using remove1_unique_id [OF d assms(3)] assms(4) by simp
  have ids2: "alarm_id (alarm_heap s2 b) = alarm_id (alarm_heap s b)" for b
    by (simp add: 2(3) 1(4))
  have c2: "contents Active s2 m =
      filter (\<lambda>y. alarm_id (alarm_heap s y) \<noteq> aid) (contents Active s m)"
    by (simp add: 2(2) 1(3) r)
  have "a \<notin> set (contents Active s2 m)"
    using assms(4) by (simp add: c2)
  moreover have "contents Active s2 m = remove1 a (contents Active s m)"
    by (simp add: c2 r)
  moreover have "\<forall>b \<in> set (contents Active s2 m). alarm_id (alarm_heap s2 b) \<noteq> aid"
    by (simp add: c2 ids2)
  moreover have "contents Alarm s2 m = contents Alarm s m"
    by (simp add: 2(2) 1(3))
  moreover have "alarm_heap s2 = (alarm_heap s)(a := (alarm_heap s a)
             \<lparr>acknowledged := True, acknowledged_by := Some u, acknowledged_at := Some t1,
              resolved := True, resolved_at := Some t2\<rparr>)"
    by (simp add: 2(3) 1(4))
  ultimately show ?thesis using 1(1) 2(1) by blast
qed

lemma append_maxlen_keeps:
  assumes "xs = pre @ a # post" and "int (length post) + 2 \<le> n"
  shows "\<exists>pre'. append_maxlen n xs r = pre' @ a # post @ [r]"
proof (cases "int (length (xs @ [r])) > n")
  case False
  then show ?thesis by (simp add: append_maxlen_def assms(1))
next
  case True
  with assms have "pre \<noteq> []" by auto
  then obtain p ps where "pre = p # ps" by (cases pre) auto
  with True show ?thesis by (simp add: append_maxlen_def assms(1))
qed

lemma append_maxlen_last:
  assumes "1 \<le> n"
  shows "\<exists>pre'. append_maxlen n xs a = pre' @ [a]"
proof (cases xs)
  case Nil
  with assms show ?thesis by (simp add: append_maxlen_def)
next
  case (Cons y ys)
  then have "append_maxlen n xs a = ys @ [a] \<or> append_maxlen n xs a = xs @ [a]"
    by (simp add: append_maxlen_def Let_def)
  then show ?thesis by blast
qed

lemma add_alarm_data_keeps_archived:
  assumes "well_formed s" and "0 \<le> max_history_size s" and "unique_ids s"
    and "a \<in> set (contents Active s m)" and "alarm_id (alarm_heap s a) = aid"
    and "machine_id (alarm_heap s r) = m \<longrightarrow> alarm_id (alarm_heap s r) \<noteq> aid"
    and "contents Alarm s m = pre @ a # post"
    and "machine_id (alarm_heap s r) = m \<longrightarrow> int (length post) + 2 \<le> max_history_size s"
  shows "\<exists>s' pre' post'. add_alarm_data s r = Inr s' \<and> well_formed s' \<and> unique_ids s' \<and>
           alarm_heap s' = alarm_heap s \<and> max_history_size s' = max_history_size s \<and>
           a \<in> set (contents Active s' m) \<and> contents Alarm s' m = pre' @ a # post' \<and>
           length post' = length post + (if machine_id (alarm_heap s r) = m then 1 else 0)"
proof -
  from add_alarm_data_step [OF assms(1-3), of r aid m]
  obtain s' where s': "add_alarm_data s r = Inr s'" "well_formed s'" "unique_ids s'"
    "alarm_heap s' = alarm_heap s" "max_history_size s' = max_history_size s"
    "filter (\<lambda>a. alarm_id (alarm_heap s a) = aid) (contents Active s' m) =
       filter (\<lambda>a. alarm_id (alarm_heap s a) = aid) (contents Active s m)"
    using assms(6) by auto
  have "a \<in> set (filter (\<lambda>a. alarm_id (alarm_heap s a) = aid) (contents Active s m))"
    using assms(4,5) by simp
  then have "a \<in> set (filter (\<lambda>a. alarm_id (alarm_heap s a) = aid) (contents Active s' m))"
    by (simp only: s'(6))
  then have act: "a \<in> set (contents Active s' m)"
    by simp
  from add_alarm_data_spec [OF assms(1,2), of r] s'(1)
  have c: "contents Alarm s' m =
      (if m = machine_id (alarm_heap s r)
       then append_maxlen (max_history_size s) (contents Alarm s m) r
       else contents Alarm s m)"
    by auto
  have "\<exists>pre' post'. contents Alarm s' m = pre' @ a # post' \<and>
           length post' = length post + (if machine_id (alarm_heap s r) = m then 1 else 0)"
  proof (cases "machine_id (alarm_heap s r) = m")
    case True
    with assms(8) have "int (length post) + 2 \<le> max_history_size s" by simp
    from append_maxlen_keeps [OF assms(7) this, of r]
    obtain pre' where "append_maxlen (max_history_size s) (contents Alarm s m) r = pre' @ a # post @ [r]"
      by blast
    with True c have "contents Alarm s' m = pre' @ a # (post @ [r])" by simp
    moreover have "length (post @ [r]) = length post + (if machine_id (alarm_heap s r) = m then 1 else 0)"
      using True by simp
    ultimately show ?thesis by blast
  next
    case False
    with c assms(7) have "contents Alarm s' m = pre @ a # post" by auto
    with False show ?thesis by auto
  qed
  with s'(1-5) act show ?thesis by blast
qed

lemma ingest_keeps_archived:
  assumes "well_formed s" and "0 \<le> max_history_size s" and "unique_ids s"
    and "a \<in> set (contents Active s m)" and "alarm_id (alarm_heap s a) = aid"
    and "\<forall>r \<in> set rs. machine_id (alarm_heap s r) = m \<longrightarrow> alarm_id (alarm_heap s r) \<noteq> aid"
    and "contents Alarm s m = pre @ a # post"
    and "int (length post) + 1 + int (length (filter (\<lambda>r. machine_id (alarm_heap s r) = m) rs))
           \<le> max_history_size s"
  shows "\<exists>s'. ingest add_alarm_data s rs = Inr s' \<and> well_formed s' \<and> unique_ids s' \<and>
           alarm_heap s' = alarm_heap s \<and> a \<in> set (contents Active s' m) \<and>
           a \<in> set (contents Alarm s' m)"
  using assms
proof (induction rs arbitrary: s pre post)
  case Nil
  then show ?case by simp
next
  case (Cons r rs)
  have 6: "machine_id (alarm_heap s r) = m \<longrightarrow> alarm_id (alarm_heap s r) \<noteq> aid"
    using Cons.prems(6) by simp
  have 8: "machine_id (alarm_heap s r) = m \<longrightarrow> int (length post) + 2 \<le> max_history_size s"
    using Cons.prems(8) by auto
  from add_alarm_data_keeps_archived [OF Cons.prems(1-5) 6 Cons.prems(7) 8]
  obtain s1 pre1 post1 where s1: "add_alarm_data s r = Inr s1" "well_formed s1" "unique_ids s1"
    "alarm_heap s1 = alarm_heap s" "max_history_size s1 = max_history_size s"
    "a \<in> set (contents Active s1 m)" "contents Alarm s1 m = pre1 @ a # post1"
    "length post1 = length post + (if machine_id (alarm_heap s r) = m then 1 else 0)"
    by blast
  have n1: "0 \<le> max_history_size s1"
    using Cons.prems(2) by (simp add: s1(5))
  have i1: "alarm_id (alarm_heap s1 a) = aid"
    using Cons.prems(5) by (simp add: s1(4))
  have r1: "\<forall>r \<in> set rs. machine_id (alarm_heap s1 r) = m \<longrightarrow> alarm_id (alarm_heap s1 r) \<noteq> aid"
    using Cons.prems(6) by (simp add: s1(4))
  have b1: "int (length post1) + 1 +
      int (length (filter (\<lambda>r. machine_id (alarm_heap s1 r) = m) rs)) \<le> max_history_size s1"
    using Cons.prems(8) by (simp add: s1(4,5,8) split: if_splits)
  from Cons.IH [OF s1(2) n1 s1(3) s1(6) i1 r1 s1(7) b1]
  obtain s' where "ingest add_alarm_data s1 rs = Inr s'" "well_formed s'" "unique_ids s'"
    "alarm_heap s' = alarm_heap s1" "a \<in> set (contents Active s' m)"
    "a \<in> set (contents Alarm s' m)"
    by blast
  then show ?case by (simp add: s1(1,4))
qed

lemma add_alarm_data_archives:
  assumes "well_formed s" and "1 \<le> max_history_size s" and "unique_ids s"
    and "\<not> resolved (alarm_heap s a)"
  shows "\<exists>s' pre. add_alarm_data s a = Inr s' \<and> well_formed s' \<and> unique_ids s' \<and>
           alarm_heap s' = alarm_heap s \<and> max_history_size s' = max_history_size s \<and>
           a \<in> set (contents Active s' (machine_id (alarm_heap s a))) \<and>
           contents Alarm s' (machine_id (alarm_heap s a)) = pre @ [a]"
proof -
  have n: "0 \<le> max_history_size s" using assms(2) by simp
  from add_alarm_data_step [OF assms(1) n assms(3), of a "alarm_id (alarm_heap s a)"
      "machine_id (alarm_heap s a)"]
  obtain s' where s': "add_alarm_data s a = Inr s'" "well_formed s'" "unique_ids s'"
    "alarm_heap s' = alarm_heap s" "max_history_size s' = max_history_size s"
    "filter (\<lambda>b. alarm_id (alarm_heap s b) = alarm_id (alarm_heap s a))
       (contents Active s' (machine_id (alarm_heap s a))) = [a]"
    using assms(4) by auto
  have "a \<in> set (filter (\<lambda>b. alarm_id (alarm_heap s b) = alarm_id (alarm_heap s a))
       (contents Active s' (machine_id (alarm_heap s a))))"
    by (simp only: s'(6)) simp
  then have act: "a \<in> set (contents Active s' (machine_id (alarm_heap s a)))"
    by simp
  from add_alarm_data_spec [OF assms(1) n, of a] s'(1)
  have "contents Alarm s' (machine_id (alarm_heap s a)) =
      append_maxlen (max_history_size s) (contents Alarm s (machine_id (alarm_heap s a))) a"
    by auto
  with append_maxlen_last [OF assms(2)]
  obtain pre where "contents Alarm s' (machine_id (alarm_heap s a)) = pre @ [a]"
    by metis
  with s'(1-5) act show ?thesis by blast
qed

lemma two_alarms_heap_facts:
  "machine_id (alarm_heap two_alarms_heap b) = ''M1''"
  "alarm_id (alarm_heap two_alarms_heap 0) = ''A1''"
  "alarm_id (alarm_heap two_alarms_heap 1) = ''A2''"
  "alarm_id (alarm_heap two_alarms_heap (Suc 0)) = ''A2''"
  "\<not> resolved (alarm_heap two_alarms_heap 0)"
  "\<not> resolved (alarm_heap two_alarms_heap 1)"
  "\<not> resolved (alarm_heap two_alarms_heap (Suc 0))"
  "acknowledged_by (alarm_heap two_alarms_heap 1) = None"
  "resolved_at (alarm_heap two_alarms_heap 1) = None"
  by (simp_all add: two_alarms_heap_def example_heap_def alarm_A1_def)

lemma two_alarms_ingested:
  assumes "1 \<le> n"
  shows "\<exists>s0. ingest add_alarm_data (DataStore_init n two_alarms_heap) [0, 1] = Inr s0 \<and>
           well_formed s0 \<and> unique_ids s0 \<and> alarm_heap s0 = alarm_heap two_alarms_heap \<and>
           contents Active s0 ''M1'' = [0, 1] \<and>
           contents Alarm s0 ''M1'' = (if n = 1 then [1] else [0, 1])"
proof -
  let ?j = "DataStore_init n two_alarms_heap"
  note e = two_alarms_heap_facts
  have hj: "alarm_heap ?j = alarm_heap two_alarms_heap" "max_history_size ?j = n"
    by (simp_all add: DataStore_init_def)
  have ehj: "contents k ?j m = []" for k m
    by (simp add: contents_alt)
  have nj: "0 \<le> max_history_size ?j" using assms by (simp add: hj)
  from add_alarm_data_spec [OF wf_init nj, of 0]
  obtain sa where sa: "add_alarm_data ?j 0 = Inr sa" "well_formed sa" "same_objects ?j sa"
    "\<And>k m'. contents k sa m' =
        (if k = Alarm \<and> m' = machine_id (alarm_heap ?j 0)
         then append_maxlen (max_history_size ?j) (contents Alarm ?j (machine_id (alarm_heap ?j 0))) 0
         else if k = Active \<and> m' = machine_id (alarm_heap ?j 0)
         then active_after (alarm_heap ?j) 0 (contents Active ?j (machine_id (alarm_heap ?j 0)))
         else contents k ?j m')"
    by blast
  have ua: "unique_ids sa"
    using wf_init nj unique_ids_init sa(1) by (rule add_alarm_data_unique_ids)
  have ha: "alarm_heap sa = alarm_heap two_alarms_heap" "max_history_size sa = n"
    using sa(3) by (simp_all add: same_objects_def hj)
  have ca: "contents Active sa ''M1'' = [0]" "contents Alarm sa ''M1'' = [0]"
    using assms by (simp_all add: sa(4) hj ehj e active_after_def append_maxlen_def)
  have na: "0 \<le> max_history_size sa" using assms by (simp add: ha)
  from add_alarm_data_spec [OF sa(2) na, of 1]
  obtain sb where sb: "add_alarm_data sa 1 = Inr sb" "well_formed sb" "same_objects sa sb"
    "\<And>k m'. contents k sb m' =
        (if k = Alarm \<and> m' = machine_id (alarm_heap sa 1)
         then append_maxlen (max_history_size sa) (contents Alarm sa (machine_id (alarm_heap sa 1))) 1
         else if k = Active \<and> m' = machine_id (alarm_heap sa 1)
         then active_after (alarm_heap sa) 1 (contents Active sa (machine_id (alarm_heap sa 1)))
         else contents k sa m')"
    by blast
  have ub: "unique_ids sb"
    using sa(2) na ua sb(1) by (rule add_alarm_data_unique_ids)
  have hb: "alarm_heap sb = alarm_heap two_alarms_heap"
    using sb(3) by (simp add: same_objects_def ha)
  have cb: "contents Active sb ''M1'' = [0, 1]"
    "contents Alarm sb ''M1'' = (if n = 1 then [1] else [0, 1])"
    using assms by (simp_all add: sb(4) ha ca e active_after_def append_maxlen_def)
  have "add_alarm_data sa (Suc 0) = Inr sb"
    using sb(1) by simp
  then have gb: "ingest add_alarm_data ?j [0, 1] = Inr sb"
    by (simp add: sa(1))
  from gb sb(2) ub hb cb show ?thesis
    by (intro exI [of _ sb] conjI)
qed

section \<open>The claims\<close>

text \<open>
  Claim C3. In a store whose heap is well formed and whose active alarms have unique ids
  per machine (both hold in every store reached from \<open>DataStore_init\<close>),
  \<open>resolve_alarm\<close> never raises. When no active alarm of the machine has the given id,
  it returns \<open>False\<close>, every machine has the same active alarms as before and no alarm
  object is written. When one has, it returns \<open>True\<close>, the machine's active alarms are
  those before without the alarm of that id, and the other machines keep theirs.
\<close>

theorem resolve_alarm_found_or_absent:
  assumes "well_formed s" and "unique_ids s"
  shows "((\<forall>a \<in> set (contents Active s m). alarm_id (alarm_heap s a) \<noteq> aid) \<longrightarrow>
            (\<exists>s'. resolve_alarm s m aid u now = Inr (False, s') \<and>
                  (\<forall>m'. contents Active s' m' = contents Active s m') \<and>
                  alarm_heap s' = alarm_heap s)) \<and>
         ((\<exists>a \<in> set (contents Active s m). alarm_id (alarm_heap s a) = aid) \<longrightarrow>
            (\<exists>s'. resolve_alarm s m aid u now = Inr (True, s') \<and>
                  contents Active s' m =
                    filter (\<lambda>a. alarm_id (alarm_heap s a) \<noteq> aid) (contents Active s m) \<and>
                  (\<forall>a \<in> set (contents Active s' m). alarm_id (alarm_heap s' a) \<noteq> aid) \<and>
                  (\<forall>m'. m' \<noteq> m \<longrightarrow> contents Active s' m' = contents Active s m')))"
proof (intro conjI impI)
  assume "\<forall>a \<in> set (contents Active s m). alarm_id (alarm_heap s a) \<noteq> aid"
  from resolve_alarm_absent [OF assms(1) this, of u now]
  show "\<exists>s'. resolve_alarm s m aid u now = Inr (False, s') \<and>
          (\<forall>m'. contents Active s' m' = contents Active s m') \<and> alarm_heap s' = alarm_heap s"
    by blast
next
  assume "\<exists>a \<in> set (contents Active s m). alarm_id (alarm_heap s a) = aid"
  then obtain a where a: "first_with_id (alarm_heap s) aid (contents Active s m) = Some a"
    by (cases "first_with_id (alarm_heap s) aid (contents Active s m)")
       (auto simp: first_with_id_None)
  then have a': "a \<in> set (contents Active s m)" "alarm_id (alarm_heap s a) = aid"
    by (auto dest: first_with_id_SomeD)
  have d: "distinct (map (\<lambda>a. alarm_id (alarm_heap s a)) (contents Active s m))"
    using assms(2) by (simp add: unique_ids_def)
  have r: "remove1 a (contents Active s m) =
      filter (\<lambda>y. alarm_id (alarm_heap s y) \<noteq> aid) (contents Active s m)"
    using remove1_unique_id [OF d a'(1)] a'(2) by simp
  from resolve_alarm_present [OF assms(1) a, of u now]
  obtain s' where s': "resolve_alarm s m aid u now = Inr (True, s')"
    "\<And>k m'. contents k s' m' =
        (if k = Active \<and> m' = m then remove1 a (contents Active s m) else contents k s m')"
    "alarm_heap s' =
        (alarm_heap s)(a := (alarm_heap s a)\<lparr>resolved := True, resolved_at := Some now\<rparr>)"
    by blast
  have "alarm_id (alarm_heap s' b) = alarm_id (alarm_heap s b)" for b
    by (simp add: s'(3))
  then show "\<exists>s'. resolve_alarm s m aid u now = Inr (True, s') \<and>
      contents Active s' m =
        filter (\<lambda>a. alarm_id (alarm_heap s a) \<noteq> aid) (contents Active s m) \<and>
      (\<forall>a \<in> set (contents Active s' m). alarm_id (alarm_heap s' a) \<noteq> aid) \<and>
      (\<forall>m'. m' \<noteq> m \<longrightarrow> contents Active s' m' = contents Active s m')"
    using s'(1) by (intro exI [of _ s']) (simp add: s'(2) r)
qed

theorem resolve_alarm_found_or_absent_witness:
  "well_formed store_open \<and> unique_ids store_open \<and>
   (\<exists>s'. resolve_alarm store_open ''M1'' ''A7'' ''op1'' 200 = Inr (False, s') \<and>
         contents Active s' ''M1'' = [0] \<and> alarm_heap s' = alarm_heap store_open) \<and>
   (\<exists>s'. resolve_alarm store_open ''M1'' ''A1'' ''op1'' 200 = Inr (True, s') \<and>
         contents Active s' ''M1'' = [])"
  using resolve_alarm_found_or_absent [OF store_open_facts(1,2), of "''M1''" "''A7''" "''op1''" 200]
    resolve_alarm_found_or_absent [OF store_open_facts(1,2), of "''M1''" "''A1''" "''op1''" 200]
  by (auto simp: store_open_facts example_heap_def alarm_A1_def)

text \<open>
  Claim C6, as amended. In a well-formed store \<open>acknowledge_alarm\<close> returns \<open>True\<close>
  exactly when the machine has an active alarm with the given id. It then writes
  \<open>acknowledged\<close>, \<open>acknowledged_by\<close> and \<open>acknowledged_at\<close> of the first such alarm
  and nothing else of any alarm; otherwise it writes no alarm. In both cases every
  list and deque of the store keeps its elements, and the only entry that can appear is
  an empty list of active alarms for a machine that had none. The last write wins: a
  call after another call for the same alarm leaves the result and the store of the
  later call alone, so repeating a call changes nothing.
\<close>

theorem acknowledge_alarm_last_write_wins:
  assumes "well_formed s"
  shows "fst (acknowledge_alarm s m aid u now) =
           (\<exists>a \<in> set (contents Active s m). alarm_id (alarm_heap s a) = aid) \<and>
         alarm_heap (snd (acknowledge_alarm s m aid u now)) =
           (case first_with_id (alarm_heap s) aid (contents Active s m) of
              None \<Rightarrow> alarm_heap s
            | Some a \<Rightarrow> (alarm_heap s)(a := (alarm_heap s a)
                \<lparr>acknowledged := True, acknowledged_by := Some u, acknowledged_at := Some now\<rparr>)) \<and>
         (\<forall>k m'. contents k (snd (acknowledge_alarm s m aid u now)) m' = contents k s m') \<and>
         (\<forall>k m'. entry k (snd (acknowledge_alarm s m aid u now)) m' =
            (if k = Active \<and> m' = m \<and> entry Active s m = None then Some [] else entry k s m')) \<and>
         acknowledge_alarm (snd (acknowledge_alarm s m aid u' now')) m aid u now =
           acknowledge_alarm s m aid u now"
proof (cases "first_with_id (alarm_heap s) aid (contents Active s m)")
  case None
  then have n: "\<forall>a \<in> set (contents Active s m). alarm_id (alarm_heap s a) \<noteq> aid"
    by (simp add: first_with_id_None)
  from acknowledge_alarm_absent [OF assms n, of u now] n None
  show ?thesis by (auto simp: acknowledge_alarm_twice)
next
  case (Some a)
  then have "a \<in> set (contents Active s m)" "alarm_id (alarm_heap s a) = aid"
    by (auto dest: first_with_id_SomeD)
  then have e: "\<exists>a \<in> set (contents Active s m). alarm_id (alarm_heap s a) = aid"
    by blast
  from acknowledge_alarm_present [OF assms Some, of u now] e Some
  show ?thesis by (auto simp: acknowledge_alarm_twice)
qed

theorem acknowledge_alarm_last_write_wins_witness:
  "well_formed store_open \<and>
   fst (acknowledge_alarm store_open ''M1'' ''A1'' ''op1'' 200) = True \<and>
   acknowledged_by (alarm_heap (snd (acknowledge_alarm store_open ''M1'' ''A1'' ''op1'' 200)) 0)
     = Some ''op1'' \<and>
   acknowledged_at (alarm_heap (snd (acknowledge_alarm store_open ''M1'' ''A1'' ''op1'' 200)) 0)
     = Some 200 \<and>
   fst (acknowledge_alarm store_open ''M1'' ''A7'' ''op1'' 200) = False \<and>
   acknowledge_alarm (snd (acknowledge_alarm store_open ''M1'' ''A1'' ''op0'' 100)) ''M1'' ''A1'' ''op1'' 200
     = acknowledge_alarm store_open ''M1'' ''A1'' ''op1'' 200"
  using acknowledge_alarm_last_write_wins [OF store_open_facts(1), of "''M1''" "''A1''" "''op1''" 200 "''op0''" 100]
    acknowledge_alarm_last_write_wins [OF store_open_facts(1), of "''M1''" "''A7''" "''op1''" 200]
  by (simp add: store_open_facts example_heap_def alarm_A1_def)

text \<open>
  Claim C6 as stated fails: acknowledging an alarm of a machine that is no key of
  \<open>active_alarms\<close> returns \<open>False\<close> and yet changes the store, which now has the
  machine as a key.
\<close>

theorem acknowledge_alarm_unknown_machine_changes_store:
  "contents Active (DataStore_init 1000 example_heap) ''M1'' = [] \<and>
   fst (acknowledge_alarm (DataStore_init 1000 example_heap) ''M1'' ''A1'' ''op1'' 200) = False \<and>
   active_alarms (DataStore_init 1000 example_heap) = [] \<and>
   active_alarms (snd (acknowledge_alarm (DataStore_init 1000 example_heap) ''M1'' ''A1'' ''op1'' 200))
     = [(''M1'', 0)] \<and>
   snd (acknowledge_alarm (DataStore_init 1000 example_heap) ''M1'' ''A1'' ''op1'' 200)
     \<noteq> DataStore_init 1000 example_heap"
proof -
  have a: "active_alarms (snd (acknowledge_alarm (DataStore_init 1000 example_heap) ''M1'' ''A1'' ''op1'' 200))
     = [(''M1'', 0)]"
    and f: "fst (acknowledge_alarm (DataStore_init 1000 example_heap) ''M1'' ''A1'' ''op1'' 200) = False"
    by (simp_all add: acknowledge_alarm_def active_alarms_getitem_def new_seq_def
        DataStore_init_def example_heap_def)
  have i: "active_alarms (DataStore_init 1000 example_heap) = []"
    by (simp add: DataStore_init_def)
  have c: "contents Active (DataStore_init 1000 example_heap) ''M1'' = []"
    by (simp add: contents_alt)
  from a i have "snd (acknowledge_alarm (DataStore_init 1000 example_heap) ''M1'' ''A1'' ''op1'' 200)
     \<noteq> DataStore_init 1000 example_heap"
    by (metis list.distinct(1))
  with a f i c show ?thesis by simp
qed

text \<open>
  Claim C1. From a well-formed store with a non-negative capacity and unique active
  ids (as every store reached from \<open>DataStore_init\<close> with such a capacity is), any
  sequence \<open>rs\<close> of alarm events is ingested by \<open>add_alarm_data\<close> without a raise and
  without writing an alarm object. Afterwards the active alarms of a machine \<open>m\<close>
  hold at most one alarm with a given id \<open>aid\<close>. Let \<open>es\<close> be the events of \<open>rs\<close>
  for \<open>(m, aid)\<close> (all of \<open>rs\<close> when the events share the identity): when the last of
  them is resolved there is no such active alarm, and otherwise the one active alarm
  with the id is the last unresolved event of \<open>es\<close> itself, so that it has that
  event's fields. With no event for \<open>(m, aid)\<close> the alarms with the id are as before.
\<close>

theorem active_alarm_is_last_open_event:
  assumes "well_formed s" and "0 \<le> max_history_size s" and "unique_ids s"
  shows "\<exists>s'. ingest add_alarm_data s rs = Inr s' \<and> alarm_heap s' = alarm_heap s \<and>
           length (filter (\<lambda>a. alarm_id (alarm_heap s' a) = aid) (contents Active s' m)) \<le> 1 \<and>
           filter (\<lambda>a. alarm_id (alarm_heap s' a) = aid) (contents Active s' m) =
             (let es = filter (\<lambda>r. machine_id (alarm_heap s r) = m \<and>
                                    alarm_id (alarm_heap s r) = aid) rs
              in if es = [] then filter (\<lambda>a. alarm_id (alarm_heap s a) = aid) (contents Active s m)
                 else if resolved (alarm_heap s (last es)) then []
                 else [last (filter (\<lambda>r. \<not> resolved (alarm_heap s r)) es)])"
proof -
  define es where "es = filter (\<lambda>r. machine_id (alarm_heap s r) = m \<and>
                                    alarm_id (alarm_heap s r) = aid) rs"
  from ingest_alarms [OF assms, of rs aid m]
  obtain s' where s': "ingest add_alarm_data s rs = Inr s'" "unique_ids s'"
    "alarm_heap s' = alarm_heap s"
    "filter (\<lambda>a. alarm_id (alarm_heap s a) = aid) (contents Active s' m) =
       (if es = [] then filter (\<lambda>a. alarm_id (alarm_heap s a) = aid) (contents Active s m)
        else if resolved (alarm_heap s (last es)) then [] else [last es])"
    unfolding es_def Let_def by blast
  have "distinct (map (\<lambda>a. alarm_id (alarm_heap s' a)) (contents Active s' m))"
    using s'(2) by (simp add: unique_ids_def)
  then have l: "length (filter (\<lambda>a. alarm_id (alarm_heap s' a) = aid) (contents Active s' m)) \<le> 1"
    using length_filter_unique [of "\<lambda>a. alarm_id (alarm_heap s' a)" "contents Active s' m" aid]
    by simp
  have "last (filter (\<lambda>r. \<not> resolved (alarm_heap s r)) es) = last es"
    if "es \<noteq> []" "\<not> resolved (alarm_heap s (last es))"
    using that by (simp add: last_filter_holds)
  then have "filter (\<lambda>a. alarm_id (alarm_heap s' a) = aid) (contents Active s' m) =
       (if es = [] then filter (\<lambda>a. alarm_id (alarm_heap s a) = aid) (contents Active s m)
        else if resolved (alarm_heap s (last es)) then []
        else [last (filter (\<lambda>r. \<not> resolved (alarm_heap s r)) es)])"
    using s'(4) by (simp add: s'(3))
  with s'(1,3) l show ?thesis
    unfolding es_def Let_def by blast
qed

theorem active_alarm_is_last_open_event_witness:
  "well_formed (DataStore_init 1000 example_heap) \<and>
   0 \<le> max_history_size (DataStore_init 1000 example_heap) \<and>
   unique_ids (DataStore_init 1000 example_heap) \<and>
   (\<exists>s'. ingest add_alarm_data (DataStore_init 1000 example_heap) [0, 1] = Inr s' \<and>
      contents Active s' ''M1'' = [1] \<and> severity (alarm_heap s' 1) = WARNING) \<and>
   (\<exists>s'. ingest add_alarm_data (DataStore_init 1000 example_heap) [0, 1, 2] = Inr s' \<and>
      contents Active s' ''M1'' = [])"
proof -
  let ?s = "DataStore_init 1000 example_heap"
  have n: "0 \<le> max_history_size ?s"
    by (simp add: DataStore_init_def)
  have h: "alarm_heap ?s = alarm_heap example_heap"
    by (simp add: DataStore_init_def)
  have c: "contents Active ?s ''M1'' = []"
    by (simp add: contents_alt)
  have i: "alarm_id (alarm_heap example_heap a) = ''A1''"
    "machine_id (alarm_heap example_heap a) = ''M1''" for a
    by (simp_all add: example_heap_def alarm_A1_def)
  from active_alarm_is_last_open_event [where s = "?s" and rs = "[0, 1]" and aid = "''A1''" and m = "''M1''",
      OF wf_init n unique_ids_init]
  have 1: "\<exists>s'. ingest add_alarm_data ?s [0, 1] = Inr s' \<and>
      contents Active s' ''M1'' = [1] \<and> severity (alarm_heap s' 1) = WARNING"
    by (auto simp: h i c Let_def) (simp_all add: example_heap_def alarm_A1_def)
  from active_alarm_is_last_open_event [where s = "?s" and rs = "[0, 1, 2]" and aid = "''A1''" and m = "''M1''",
      OF wf_init n unique_ids_init]
  have 2: "\<exists>s'. ingest add_alarm_data ?s [0, 1, 2] = Inr s' \<and> contents Active s' ''M1'' = []"
    by (auto simp: h i c Let_def) (simp_all add: example_heap_def alarm_A1_def)
  from wf_init n unique_ids_init 1 2 show ?thesis by blast
qed

text \<open>
  Claim C5. From a well-formed store with a non-negative capacity, any sequence \<open>rs\<close>
  of samples is ingested by \<open>add_process_data\<close> without a raise and without writing a
  sample. Afterwards the latest-value cache of a machine \<open>m\<close>, as both
  \<open>get_machine_process_data\<close> and \<open>get_latest_process_data\<close> return it, is the last
  sample of \<open>rs\<close> for \<open>m\<close> (and is as before when \<open>rs\<close> has none), whatever the
  history holds; and the history of \<open>m\<close>, when it was within the capacity before, is
  the last \<open>max_history_size\<close> elements of the old history followed by the samples of
  \<open>rs\<close> for \<open>m\<close>. The witness is the scenario of the claim, with capacity 1, and the
  same with capacity 0, where the latest sample is not in the history at all.
\<close>

theorem latest_process_is_last_ingested:
  assumes "well_formed s" and "0 \<le> max_history_size s"
    and "int (length (contents Process s m)) \<le> max_history_size s"
  shows "\<exists>s'. ingest add_process_data s rs = Inr s' \<and> process_heap s' = process_heap s \<and>
           get_machine_process_data s' m =
             (let es = filter (\<lambda>r. ProcessData.machine_id (process_heap s r) = m) rs
              in if es = [] then get_machine_process_data s m else Some (last es)) \<and>
           map_of (returned_items (get_latest_process_data s')) m = get_machine_process_data s' m \<and>
           contents Process s' m =
             (let es = filter (\<lambda>r. ProcessData.machine_id (process_heap s r) = m) rs;
                  xs = contents Process s m @ es
              in drop (length xs - nat (max_history_size s)) xs)"
proof -
  from ingest_process_data [OF assms, of rs]
  obtain s' where "ingest add_process_data s rs = Inr s'" "process_heap s' = process_heap s"
    "map_of (latest_process s') m =
       (let es = filter (\<lambda>r. ProcessData.machine_id (process_heap s r) = m) rs
        in if es = [] then map_of (latest_process s) m else Some (last es))"
    "contents Process s' m =
       (let es = filter (\<lambda>r. ProcessData.machine_id (process_heap s r) = m) rs;
            xs = contents Process s m @ es
        in drop (length xs - nat (max_history_size s)) xs)"
    by blast
  then show ?thesis
    unfolding get_machine_process_data_def get_latest_process_data_eq
    by (intro exI [of _ s']) simp
qed

theorem latest_process_is_last_ingested_witness:
  "well_formed (DataStore_init 1 example_heap) \<and> 0 \<le> max_history_size (DataStore_init 1 example_heap) \<and>
   int (length (contents Process (DataStore_init 1 example_heap) ''M1''))
     \<le> max_history_size (DataStore_init 1 example_heap) \<and>
   (\<exists>s'. ingest add_process_data (DataStore_init 1 example_heap) [0, 1] = Inr s' \<and>
      contents Process s' ''M1'' = [1] \<and> get_machine_process_data s' ''M1'' = Some 1 \<and>
      temperature (process_heap s' 0) = 72 \<and> temperature (process_heap s' 1) = 75) \<and>
   (\<exists>s'. ingest add_process_data (DataStore_init 0 example_heap) [0, 1] = Inr s' \<and>
      contents Process s' ''M1'' = [] \<and> get_machine_process_data s' ''M1'' = Some 1)"
proof -
  have n: "0 \<le> max_history_size (DataStore_init 1 example_heap)"
    "0 \<le> max_history_size (DataStore_init 0 example_heap)"
    "max_history_size (DataStore_init 1 example_heap) = 1"
    "max_history_size (DataStore_init 0 example_heap) = 0"
    by (simp_all add: DataStore_init_def)
  have c: "contents Process (DataStore_init k example_heap) ''M1'' = []" for k
    by (simp add: contents_alt)
  have b: "int (length (contents Process (DataStore_init 1 example_heap) ''M1''))
     \<le> max_history_size (DataStore_init 1 example_heap)"
    "int (length (contents Process (DataStore_init 0 example_heap) ''M1''))
     \<le> max_history_size (DataStore_init 0 example_heap)"
    by (simp_all add: c n)
  have h: "process_heap (DataStore_init k example_heap) = process_heap example_heap"
    "get_machine_process_data (DataStore_init k example_heap) ''M1'' = None" for k
    by (simp_all add: DataStore_init_def get_machine_process_data_def)
  have p: "ProcessData.machine_id (process_heap example_heap r) = ''M1''"
    "temperature (process_heap example_heap 0) = 72"
    "temperature (process_heap example_heap 1) = 75"
    "temperature (process_heap example_heap (Suc 0)) = 75" for r
    by (simp_all add: example_heap_def sample_M1_def)
  from latest_process_is_last_ingested [OF wf_init n(1) b(1), of "[0, 1]"]
  have 1: "\<exists>s'. ingest add_process_data (DataStore_init 1 example_heap) [0, 1] = Inr s' \<and>
      contents Process s' ''M1'' = [1] \<and> get_machine_process_data s' ''M1'' = Some 1 \<and>
      temperature (process_heap s' 0) = 72 \<and> temperature (process_heap s' 1) = 75"
    by (auto simp: h p c n Let_def)
  from latest_process_is_last_ingested [OF wf_init n(2) b(2), of "[0, 1]"]
  have 2: "\<exists>s'. ingest add_process_data (DataStore_init 0 example_heap) [0, 1] = Inr s' \<and>
      contents Process s' ''M1'' = [] \<and> get_machine_process_data s' ''M1'' = Some 1"
    by (auto simp: h p c n Let_def)
  from wf_init n(1) b(1) 1 2 show ?thesis by blast
qed

text \<open>
  Claim C10. In a well-formed store with a non-negative capacity, \<open>get_process_history\<close>
  and \<open>get_alarm_history\<close> return a list and leave the history as it is. For a positive
  \<open>limit\<close> the list is the last \<open>min(limit, length)\<close> elements of the machine's
  history, in their order; for \<open>limit = 0\<close> it is the whole history.
\<close>

theorem history_limit_zero_is_unlimited:
  assumes "well_formed s" and "0 \<le> max_history_size s"
  shows "(\<exists>l s'. get_process_history s m limit = Inr (l, s') \<and>
            (0 < limit \<longrightarrow> seq_heap s' l =
               drop (length (contents Process s m) - min (nat limit) (length (contents Process s m)))
                 (contents Process s m)) \<and>
            (limit = 0 \<longrightarrow> seq_heap s' l = contents Process s m) \<and>
            contents Process s' m = contents Process s m) \<and>
         (\<exists>l s'. get_alarm_history s m limit = Inr (l, s') \<and>
            (0 < limit \<longrightarrow> seq_heap s' l =
               drop (length (contents Alarm s m) - min (nat limit) (length (contents Alarm s m)))
                 (contents Alarm s m)) \<and>
            (limit = 0 \<longrightarrow> seq_heap s' l = contents Alarm s m) \<and>
            contents Alarm s' m = contents Alarm s m)"
proof -
  from get_process_history_spec [OF assms, of m limit]
  obtain l s' where p: "get_process_history s m limit = Inr (l, s')"
    "seq_heap s' l =
       (if limit \<noteq> 0 then py_slice_from (contents Process s m) (- limit) else contents Process s m)"
    "\<And>k' m'. entry k' s' m' =
       (if k' = Process \<and> m' = m \<and> entry Process s m = None then Some [] else entry k' s m')"
    by blast
  from get_alarm_history_spec [OF assms, of m limit]
  obtain l2 s2 where a: "get_alarm_history s m limit = Inr (l2, s2)"
    "seq_heap s2 l2 =
       (if limit \<noteq> 0 then py_slice_from (contents Alarm s m) (- limit) else contents Alarm s m)"
    "\<And>k' m'. entry k' s2 m' =
       (if k' = Alarm \<and> m' = m \<and> entry Alarm s m = None then Some [] else entry k' s m')"
    by blast
  have "contents Process s' m = contents Process s m" "contents Alarm s2 m = contents Alarm s m"
    by (simp_all add: contents_def p(3) a(3))
  with p(1,2) a(1,2) show ?thesis
    by (auto simp: py_slice_from_last)
qed

theorem history_limit_zero_is_unlimited_witness:
  "well_formed store_samples \<and> 0 \<le> max_history_size store_samples \<and>
   (\<exists>l s'. get_process_history store_samples ''M1'' 1 = Inr (l, s') \<and> seq_heap s' l = [1]) \<and>
   (\<exists>l s'. get_process_history store_samples ''M1'' 5 = Inr (l, s') \<and> seq_heap s' l = [0, 1]) \<and>
   (\<exists>l s'. get_process_history store_samples ''M1'' 0 = Inr (l, s') \<and> seq_heap s' l = [0, 1]) \<and>
   (\<exists>l s'. get_alarm_history store_samples ''M1'' 0 = Inr (l, s') \<and> seq_heap s' l = [])"
  using history_limit_zero_is_unlimited [OF store_samples_facts(1,2), of "''M1''" 1]
    history_limit_zero_is_unlimited [OF store_samples_facts(1,2), of "''M1''" 5]
    history_limit_zero_is_unlimited [OF store_samples_facts(1,2), of "''M1''" 0]
  by (auto simp: store_samples_facts)

text \<open>
  Claim C9. Let \<open>m\<close> be no key of \<open>active_alarms\<close> in a well-formed store. Then
  \<open>get_active_alarms\<close> does not list \<open>m\<close>; and after \<open>acknowledge_alarm\<close>, after
  \<open>resolve_alarm\<close> and after \<open>get_machine_alarms\<close> for \<open>m\<close> the store has an empty
  list for \<open>m\<close>, and \<open>get_active_alarms\<close> lists \<open>m\<close> with an empty list.
\<close>

theorem reads_create_empty_alarm_list:
  assumes "well_formed s" and "map_of (active_alarms s) m = None"
  shows "map_of (returned_items (get_active_alarms s)) m = None \<and>
         listed_empty m (snd (acknowledge_alarm s m aid u now)) \<and>
         (\<exists>r s'. resolve_alarm s m aid u now = Inr (r, s') \<and> listed_empty m s') \<and>
         listed_empty m (snd (get_machine_alarms s m))"
proof -
  have e: "entry Active s m = None"
    using assms(2) by (simp add: entry_def)
  then have c: "\<forall>a \<in> set (contents Active s m). alarm_id (alarm_heap s a) \<noteq> aid"
    by (simp add: contents_def)
  have 0: "map_of (returned_items (get_active_alarms s)) m = None"
    using get_active_alarms_spec [OF assms(1)] e by blast
  from acknowledge_alarm_absent [OF assms(1) c, of u now]
  obtain s1 where 1: "acknowledge_alarm s m aid u now = (False, s1)" "well_formed s1"
    "entry Active s1 m = Some []"
    using e by auto
  from resolve_alarm_absent [OF assms(1) c, of u now]
  obtain s2 where 2: "resolve_alarm s m aid u now = Inr (False, s2)" "well_formed s2"
    "entry Active s2 m = Some []"
    using e by auto
  from get_machine_alarms_spec [OF assms(1), of m]
  obtain l s3 where 3: "get_machine_alarms s m = (l, s3)" "well_formed s3"
    "entry Active s3 m = Some []"
    using e by auto
  show ?thesis
    using 0 1 2 3 by (auto intro: listed_emptyI)
qed

theorem reads_create_empty_alarm_list_witness:
  "well_formed (DataStore_init 1000 example_heap) \<and>
   map_of (active_alarms (DataStore_init 1000 example_heap)) ''M9'' = None \<and>
   returned_items (get_active_alarms (DataStore_init 1000 example_heap)) = [] \<and>
   listed_empty ''M9'' (snd (acknowledge_alarm (DataStore_init 1000 example_heap) ''M9'' ''A1'' ''op1'' 200)) \<and>
   (\<exists>r s'. resolve_alarm (DataStore_init 1000 example_heap) ''M9'' ''A1'' ''op1'' 200 = Inr (r, s') \<and>
       listed_empty ''M9'' s') \<and>
   listed_empty ''M9'' (snd (get_machine_alarms (DataStore_init 1000 example_heap) ''M9'')) \<and>
   returned_items (get_active_alarms (snd (get_machine_alarms (DataStore_init 1000 example_heap) ''M9'')))
     = [(''M9'', 2)]"
proof -
  have n: "map_of (active_alarms (DataStore_init 1000 example_heap)) ''M9'' = None"
    by (simp add: DataStore_init_def)
  have g: "returned_items (get_active_alarms (DataStore_init 1000 example_heap)) = []"
    by (simp add: get_active_alarms_eq DataStore_init_def)
  have g': "returned_items (get_active_alarms (snd (get_machine_alarms (DataStore_init 1000 example_heap) ''M9'')))
     = [(''M9'', 2)]"
    by (simp add: get_active_alarms_eq get_machine_alarms_def active_alarms_getitem_def
        new_seq_def DataStore_init_def example_heap_def)
  from reads_create_empty_alarm_list [OF wf_init n, of "''A1''" "''op1''" 200] wf_init n g g'
  show ?thesis by blast
qed

text \<open>
  Claim C4. Whatever calls have been made on a store created with capacity \<open>n\<close>, the
  capacity is still \<open>n\<close> and every history deque of every machine and of each of the
  five kinds holds at most \<open>n\<close> elements. For a non-negative \<open>n\<close> an ingestion
  into that store returns, and the machine's history of the kind is then the old one
  with the new element appended when the old one had fewer than \<open>n\<close> elements, and
  that sequence without its first, the oldest, element when the old one had \<open>n\<close>.
\<close>

theorem history_never_exceeds_capacity:
  "max_history_size (run (DataStore_init n h) cs) = n \<and>
   (\<forall>k m xs. k \<noteq> Active \<and> entry k (run (DataStore_init n h) cs) m = Some xs
       \<longrightarrow> int (length xs) \<le> n) \<and>
   (0 \<le> n \<longrightarrow>
      (\<forall>k r. k \<noteq> Active \<longrightarrow>
         (\<exists>s'. add k (run (DataStore_init n h) cs) r = Inr s' \<and>
            (let m = machine_of k (run (DataStore_init n h) cs) r;
                 old = contents k (run (DataStore_init n h) cs) m;
                 new = contents k s' m
             in (int (length old) < n \<longrightarrow> new = old @ [r]) \<and>
                (int (length old) = n \<longrightarrow> new = tl (old @ [r]))))))"
proof -
  let ?s = "run (DataStore_init n h) cs"
  have c: "max_history_size ?s = n"
    by (simp add: capacity_run DataStore_init_def)
  have i: "store_inv ?s"
    using store_inv_init by (rule inv_run)
  then have b: "bounded ?s" and w: "well_formed ?s"
    by (simp_all add: store_inv_def)
  have 1: "\<forall>k m xs. k \<noteq> Active \<and> entry k ?s m = Some xs \<longrightarrow> int (length xs) \<le> n"
    using b c by (simp add: bounded_def)
  have 2: "\<exists>s'. add k ?s r = Inr s' \<and>
            (let m = machine_of k ?s r; old = contents k ?s m; new = contents k s' m
             in (int (length old) < n \<longrightarrow> new = old @ [r]) \<and>
                (int (length old) = n \<longrightarrow> new = tl (old @ [r])))"
    if "0 \<le> n" "k \<noteq> Active" for k r
  proof -
    have n: "0 \<le> max_history_size ?s" using that(1) c by simp
    from add_appends [OF w n that(2), of r] obtain s' where
      "add k ?s r = Inr s'"
      "contents k s' (machine_of k ?s r) = append_maxlen n (contents k ?s (machine_of k ?s r)) r"
      by (auto simp: c)
    then show ?thesis
      using append_maxlen_fifo [of "contents k ?s (machine_of k ?s r)" n r]
      by (simp add: Let_def)
  qed
  from c 1 2 show ?thesis by blast
qed

theorem history_never_exceeds_capacity_witness:
  "entry Process (run (DataStore_init 1 example_heap) [Add_process_data 0]) ''M1'' = Some [0] \<and>
   (\<exists>s'. add_process_data (run (DataStore_init 1 example_heap) [Add_process_data 0]) 1 = Inr s' \<and>
      contents Process s' ''M1'' = [1]) \<and>
   entry Process (run (DataStore_init 1 example_heap) [Add_process_data 0, Add_process_data 1]) ''M1''
     = Some [1]"
proof -
  let ?i = "DataStore_init 1 example_heap"
  let ?s = "run ?i [Add_process_data 0]"
  have r: "machine_of Process t r = ''M1''" if "process_heap t = process_heap example_heap" for t r
    using that by (simp add: example_heap_def sample_M1_def)
  have n0: "0 \<le> max_history_size ?i" "max_history_size ?i = 1"
    "process_heap ?i = process_heap example_heap" "entry Process ?i m = None" for m
    by (simp_all add: DataStore_init_def entry_def)
  from add_process_data_spec [OF wf_init n0(1), of 0]
  obtain s1 where s1: "add_process_data ?i 0 = Inr s1" "same_objects ?i s1"
    "\<And>k m'. entry k s1 m' =
       (if k = Process \<and> m' = ProcessData.machine_id (process_heap ?i 0)
        then Some (append_maxlen (max_history_size ?i)
               (contents Process ?i (ProcessData.machine_id (process_heap ?i 0))) 0)
        else entry k ?i m')"
    by blast
  have e: "?s = s1" by (simp add: run_def after_def s1(1))
  have p1: "process_heap s1 = process_heap example_heap"
    using s1(2) by (simp add: same_objects_def n0)
  have m0: "ProcessData.machine_id (process_heap ?i 0) = ''M1''"
    using r [of ?i 0] by (simp add: n0)
  have "entry Process s1 ''M1'' = Some (append_maxlen (max_history_size ?i)
               (contents Process ?i ''M1'') 0)"
    unfolding s1(3) m0 by simp
  then have e1: "entry Process s1 ''M1'' = Some [0]"
    by (simp add: n0 contents_def append_maxlen_def)
  then have c1: "contents Process s1 ''M1'' = [0]"
    by (simp add: contents_def)
  have "0 \<le> (1::int)" "Process \<noteq> Active" by simp_all
  from history_never_exceeds_capacity [of 1 example_heap "[Add_process_data 0]",
      THEN conjunct2, THEN conjunct2, rule_format, OF this]
  have "\<exists>s'. add Process s1 1 = Inr s' \<and>
            (let m = machine_of Process s1 1; old = contents Process s1 m; new = contents Process s' m
             in (int (length old) < 1 \<longrightarrow> new = old @ [1]) \<and>
                (int (length old) = 1 \<longrightarrow> new = tl (old @ [1])))"
    unfolding e .
  then obtain s2 where s2: "add_process_data s1 1 = Inr s2" "contents Process s2 ''M1'' = [1]"
    using r [OF p1, of 1] by (auto simp: c1 Let_def simp del: machine_of.simps)
  have "run ?i [Add_process_data 0, Add_process_data 1] = s2"
    using s2(1) by (simp add: run_def after_def s1(1))
  moreover have "entry Process s2 ''M1'' = Some [1]"
    using s2(2) by (auto simp: contents_def split: option.splits)
  ultimately have "entry Process (run ?i [Add_process_data 0, Add_process_data 1]) ''M1'' = Some [1]"
    by simp
  with e e1 s2 show ?thesis by auto
qed

text \<open>
  Claim C2. Let every raise of a delivery be an \<open>Exception\<close>, as a failed send is
  (a raise that is none, such as the cancellation of the broadcasting task, is not
  caught by \<open>except Exception\<close>). Then \<open>broadcast\<close> returns normally. The message
  was delivered, in the order of the registry at the time of the call, to exactly the
  clients of that registry whose delivery did not fail. Afterwards the registry holds
  these clients, in their order, so that exactly the failed clients are gone from it;
  and \<open>connection_info\<close> has lost the failed clients and no other key.
\<close>

theorem broadcast_isolates_failures:
  assumes "\<forall>c \<in> set (active_connections M). net c \<noteq> Raised BaseException"
  shows "\<exists>M'. broadcast net msg M =
           (None, M', map (\<lambda>c. (c, msg)) (filter (\<lambda>c. delivered (net c)) (active_connections M))) \<and>
           active_connections M' = filter (\<lambda>c. delivered (net c)) (active_connections M) \<and>
           map fst (connection_info M') =
             filter (\<lambda>c. c \<notin> set (active_connections M) \<or> delivered (net c))
               (map fst (connection_info M))"
proof (cases "active_connections M = []")
  case True
  then show ?thesis by (simp add: broadcast_def)
next
  case False
  let ?cs = "active_connections M"
  let ?failed = "filter (\<lambda>c. \<not> delivered (net c)) ?cs"
  let ?sent = "map (\<lambda>c. (c, msg)) (filter (\<lambda>c. delivered (net c)) ?cs)"
  from send_all_spec [OF assms, of msg M "[]" "[]"]
  obtain M1 where s: "send_all net msg ?cs M [] [] = (None, M1, ?failed, ?sent)"
    "active_connections M1 = ?cs" "map fst (connection_info M1) = map fst (connection_info M)"
    by auto
  define M' where "M' = fold (\<lambda>c M'. disconnect M' c) ?failed M1"
  have b: "broadcast net msg M = (None, M', ?sent)"
    using False by (simp add: broadcast_def s(1) M'_def)
  have "fold remove1 ?failed ([] @ ?cs) = [] @ filter (\<lambda>c. \<not> \<not> delivered (net c)) ?cs"
    by (rule fold_remove1_failed) simp
  then have a: "active_connections M' = filter (\<lambda>c. delivered (net c)) ?cs"
    using fold_disconnect [of ?failed M1] by (simp add: M'_def s(2))
  have "map fst (connection_info M') =
      filter (\<lambda>c. c \<notin> set ?failed) (map fst (connection_info M))"
    using fold_disconnect [of ?failed M1] by (simp add: M'_def s(3))
  also have "\<dots> = filter (\<lambda>c. c \<notin> set ?cs \<or> delivered (net c)) (map fst (connection_info M))"
    by (rule filter_cong) auto
  finally show ?thesis using a b by blast
qed

theorem broadcast_isolates_failures_witness:
  "\<exists>M'. broadcast client2_closed ''E'' three_clients = (None, M', [(1, ''E''), (3, ''E'')]) \<and>
      active_connections M' = [1, 3] \<and> map fst (connection_info M') = [1, 3]"
proof -
  have h: "\<forall>c \<in> set (active_connections three_clients). client2_closed c \<noteq> Raised BaseException"
    by (simp add: three_clients_def client2_closed_def)
  have d: "delivered (client2_closed c) = (c \<noteq> 2)" for c
    by (simp add: client2_closed_def)
  from broadcast_isolates_failures [OF h, of "''E''"]
  show ?thesis
    by (simp add: three_clients_def d)
qed




text \<open>
  Claim C7, as amended. In a well-formed store with unique active ids, let \<open>a\<close> be an
  active alarm of machine \<open>m\<close> with id \<open>aid\<close>. Then \<open>acknowledge_alarm\<close> followed
  by \<open>resolve_alarm\<close> both return \<open>True\<close>; afterwards the active alarms of \<open>m\<close>
  are those before without \<open>a\<close>, and none of them has the id; the alarm history of
  \<open>m\<close> holds the same objects in the same order; and the two calls have written the
  acknowledgment and resolution fields of the object \<open>a\<close> and nothing else. So when
  the history holds \<open>a\<close>, it still holds it, with \<open>acknowledged_by\<close> and
  \<open>resolved_at\<close> as written, and when it does not, its records are as they were.
  And the history does hold \<open>a\<close> when \<open>add_alarm_data\<close> has ingested the
  unresolved event \<open>a\<close> and then events \<open>rs\<close>, none of them for the alarm
  \<open>aid\<close> of \<open>m\<close> and fewer than \<open>max_history_size\<close> of them for \<open>m\<close>:
  \<open>add_alarm_data\<close> puts the one object into the history and into the active list.
  From such a store on, the alarm is acknowledged, resolved and gone from the active
  list, and its record in the history carries both values.
\<close>

theorem acknowledged_and_resolved_alarm_is_archived:
  assumes "well_formed s" and "unique_ids s"
  shows "(a \<in> set (contents Active s m) \<and> alarm_id (alarm_heap s a) = aid \<longrightarrow>
            (\<exists>s1 s2. acknowledge_alarm s m aid u t1 = (True, s1) \<and>
               resolve_alarm s1 m aid u t2 = Inr (True, s2) \<and>
               contents Active s2 m = remove1 a (contents Active s m) \<and>
               a \<notin> set (contents Active s2 m) \<and>
               (\<forall>b \<in> set (contents Active s2 m). alarm_id (alarm_heap s2 b) \<noteq> aid) \<and>
               contents Alarm s2 m = contents Alarm s m \<and>
               alarm_heap s2 = (alarm_heap s)(a := (alarm_heap s a)
                 \<lparr>acknowledged := True, acknowledged_by := Some u, acknowledged_at := Some t1,
                  resolved := True, resolved_at := Some t2\<rparr>) \<and>
               (a \<in> set (contents Alarm s m) \<longrightarrow>
                  a \<in> set (contents Alarm s2 m) \<and>
                  acknowledged_by (alarm_heap s2 a) = Some u \<and>
                  resolved_at (alarm_heap s2 a) = Some t2) \<and>
               (a \<notin> set (contents Alarm s m) \<longrightarrow>
                  map (alarm_heap s2) (contents Alarm s2 m) =
                  map (alarm_heap s) (contents Alarm s m)))) \<and>
         (machine_id (alarm_heap s a) = m \<and> alarm_id (alarm_heap s a) = aid \<and>
          \<not> resolved (alarm_heap s a) \<and>
          (\<forall>r \<in> set rs. machine_id (alarm_heap s r) = m \<longrightarrow> alarm_id (alarm_heap s r) \<noteq> aid) \<and>
          int (length (filter (\<lambda>r. machine_id (alarm_heap s r) = m) rs)) < max_history_size s \<longrightarrow>
            (\<exists>s0 s1 s2. ingest add_alarm_data s (a # rs) = Inr s0 \<and>
               a \<in> set (contents Active s0 m) \<and> a \<in> set (contents Alarm s0 m) \<and>
               acknowledge_alarm s0 m aid u t1 = (True, s1) \<and>
               resolve_alarm s1 m aid u t2 = Inr (True, s2) \<and>
               contents Active s2 m = remove1 a (contents Active s0 m) \<and>
               a \<notin> set (contents Active s2 m) \<and>
               contents Alarm s2 m = contents Alarm s0 m \<and>
               a \<in> set (contents Alarm s2 m) \<and>
               alarm_heap s2 = (alarm_heap s)(a := (alarm_heap s a)
                 \<lparr>acknowledged := True, acknowledged_by := Some u, acknowledged_at := Some t1,
                  resolved := True, resolved_at := Some t2\<rparr>)))"
proof (intro conjI impI)
  assume h: "a \<in> set (contents Active s m) \<and> alarm_id (alarm_heap s a) = aid"
  then have h1: "a \<in> set (contents Active s m)" and h2: "alarm_id (alarm_heap s a) = aid"
    by simp_all
  from acknowledge_resolve_present [OF assms h1 h2, of u t1 t2]
  obtain s1 s2 where r: "acknowledge_alarm s m aid u t1 = (True, s1)"
    "resolve_alarm s1 m aid u t2 = Inr (True, s2)"
    "contents Active s2 m = remove1 a (contents Active s m)"
    "a \<notin> set (contents Active s2 m)"
    "\<forall>b \<in> set (contents Active s2 m). alarm_id (alarm_heap s2 b) \<noteq> aid"
    "contents Alarm s2 m = contents Alarm s m"
    "alarm_heap s2 = (alarm_heap s)(a := (alarm_heap s a)
       \<lparr>acknowledged := True, acknowledged_by := Some u, acknowledged_at := Some t1,
        resolved := True, resolved_at := Some t2\<rparr>)"
    by blast
  have "a \<in> set (contents Alarm s m) \<longrightarrow>
          a \<in> set (contents Alarm s2 m) \<and> acknowledged_by (alarm_heap s2 a) = Some u \<and>
          resolved_at (alarm_heap s2 a) = Some t2"
    by (simp add: r(6,7))
  moreover have "a \<notin> set (contents Alarm s m) \<longrightarrow>
          map (alarm_heap s2) (contents Alarm s2 m) = map (alarm_heap s) (contents Alarm s m)"
    by (auto simp: r(6,7))
  ultimately show "\<exists>s1 s2. acknowledge_alarm s m aid u t1 = (True, s1) \<and>
               resolve_alarm s1 m aid u t2 = Inr (True, s2) \<and>
               contents Active s2 m = remove1 a (contents Active s m) \<and>
               a \<notin> set (contents Active s2 m) \<and>
               (\<forall>b \<in> set (contents Active s2 m). alarm_id (alarm_heap s2 b) \<noteq> aid) \<and>
               contents Alarm s2 m = contents Alarm s m \<and>
               alarm_heap s2 = (alarm_heap s)(a := (alarm_heap s a)
                 \<lparr>acknowledged := True, acknowledged_by := Some u, acknowledged_at := Some t1,
                  resolved := True, resolved_at := Some t2\<rparr>) \<and>
               (a \<in> set (contents Alarm s m) \<longrightarrow>
                  a \<in> set (contents Alarm s2 m) \<and>
                  acknowledged_by (alarm_heap s2 a) = Some u \<and>
                  resolved_at (alarm_heap s2 a) = Some t2) \<and>
               (a \<notin> set (contents Alarm s m) \<longrightarrow>
                  map (alarm_heap s2) (contents Alarm s2 m) =
                  map (alarm_heap s) (contents Alarm s m))"
    using r by (intro exI [of _ s1] exI [of _ s2] conjI)
next
  assume h: "machine_id (alarm_heap s a) = m \<and> alarm_id (alarm_heap s a) = aid \<and>
          \<not> resolved (alarm_heap s a) \<and>
          (\<forall>r \<in> set rs. machine_id (alarm_heap s r) = m \<longrightarrow> alarm_id (alarm_heap s r) \<noteq> aid) \<and>
          int (length (filter (\<lambda>r. machine_id (alarm_heap s r) = m) rs)) < max_history_size s"
  then have m: "machine_id (alarm_heap s a) = m" and i: "alarm_id (alarm_heap s a) = aid"
    and u: "\<not> resolved (alarm_heap s a)"
    and o: "\<forall>r \<in> set rs. machine_id (alarm_heap s r) = m \<longrightarrow> alarm_id (alarm_heap s r) \<noteq> aid"
    and b: "int (length (filter (\<lambda>r. machine_id (alarm_heap s r) = m) rs)) < max_history_size s"
    by simp_all
  have n: "1 \<le> max_history_size s"
    using b by linarith
  from add_alarm_data_archives [OF assms(1) n assms(2) u]
  obtain sa pre where sa: "add_alarm_data s a = Inr sa" "well_formed sa" "unique_ids sa"
    "alarm_heap sa = alarm_heap s" "max_history_size sa = max_history_size s"
    "a \<in> set (contents Active sa m)" "contents Alarm sa m = pre @ [a]"
    unfolding m by blast
  have na: "0 \<le> max_history_size sa"
    using n by (simp add: sa(5))
  have ia: "alarm_id (alarm_heap sa a) = aid"
    by (simp add: sa(4) i)
  have oa: "\<forall>r \<in> set rs. machine_id (alarm_heap sa r) = m \<longrightarrow> alarm_id (alarm_heap sa r) \<noteq> aid"
    using o by (simp add: sa(4))
  have ca: "contents Alarm sa m = pre @ a # []"
    by (simp add: sa(7))
  have ba: "int (length ([] :: ref list)) + 1 +
      int (length (filter (\<lambda>r. machine_id (alarm_heap sa r) = m) rs)) \<le> max_history_size sa"
    using b by (simp add: sa(4,5))
  from ingest_keeps_archived [OF sa(2) na sa(3) sa(6) ia oa ca ba]
  obtain s0 where s0: "ingest add_alarm_data sa rs = Inr s0" "well_formed s0" "unique_ids s0"
    "alarm_heap s0 = alarm_heap sa" "a \<in> set (contents Active s0 m)"
    "a \<in> set (contents Alarm s0 m)"
    by blast
  have g: "ingest add_alarm_data s (a # rs) = Inr s0"
    by (simp add: sa(1) s0(1))
  have i0: "alarm_id (alarm_heap s0 a) = aid"
    by (simp add: s0(4) ia)
  from acknowledge_resolve_present [OF s0(2,3,5) i0, of u t1 t2]
  obtain s1 s2 where r: "acknowledge_alarm s0 m aid u t1 = (True, s1)"
    "resolve_alarm s1 m aid u t2 = Inr (True, s2)"
    "contents Active s2 m = remove1 a (contents Active s0 m)"
    "a \<notin> set (contents Active s2 m)"
    "contents Alarm s2 m = contents Alarm s0 m"
    "alarm_heap s2 = (alarm_heap s0)(a := (alarm_heap s0 a)
       \<lparr>acknowledged := True, acknowledged_by := Some u, acknowledged_at := Some t1,
        resolved := True, resolved_at := Some t2\<rparr>)"
    by blast
  have e: "a \<in> set (contents Alarm s2 m)"
    using s0(6) by (simp add: r(5))
  have f: "alarm_heap s2 = (alarm_heap s)(a := (alarm_heap s a)
       \<lparr>acknowledged := True, acknowledged_by := Some u, acknowledged_at := Some t1,
        resolved := True, resolved_at := Some t2\<rparr>)"
    by (simp add: r(6) s0(4) sa(4))
  from g s0(5,6) r(1-5) e f
  show "\<exists>s0 s1 s2. ingest add_alarm_data s (a # rs) = Inr s0 \<and>
               a \<in> set (contents Active s0 m) \<and> a \<in> set (contents Alarm s0 m) \<and>
               acknowledge_alarm s0 m aid u t1 = (True, s1) \<and>
               resolve_alarm s1 m aid u t2 = Inr (True, s2) \<and>
               contents Active s2 m = remove1 a (contents Active s0 m) \<and>
               a \<notin> set (contents Active s2 m) \<and>
               contents Alarm s2 m = contents Alarm s0 m \<and>
               a \<in> set (contents Alarm s2 m) \<and>
               alarm_heap s2 = (alarm_heap s)(a := (alarm_heap s a)
                 \<lparr>acknowledged := True, acknowledged_by := Some u, acknowledged_at := Some t1,
                  resolved := True, resolved_at := Some t2\<rparr>)"
    by (intro exI [of _ s0] exI [of _ s1] exI [of _ s2] conjI)
qed

theorem acknowledged_and_resolved_alarm_is_archived_witness:
  "well_formed (DataStore_init 2 two_alarms_heap) \<and> unique_ids (DataStore_init 2 two_alarms_heap) \<and>
   machine_id (alarm_heap (DataStore_init 2 two_alarms_heap) 0) = ''M1'' \<and>
   alarm_id (alarm_heap (DataStore_init 2 two_alarms_heap) 0) = ''A1'' \<and>
   resolved (alarm_heap (DataStore_init 2 two_alarms_heap) 0) = False \<and>
   machine_id (alarm_heap (DataStore_init 2 two_alarms_heap) 1) = ''M1'' \<and>
   alarm_id (alarm_heap (DataStore_init 2 two_alarms_heap) 1) = ''A2'' \<and>
   max_history_size (DataStore_init 2 two_alarms_heap) = 2 \<and>
   (\<exists>s0 s1 s2. ingest add_alarm_data (DataStore_init 2 two_alarms_heap) [0, 1] = Inr s0 \<and>
      contents Active s0 ''M1'' = [0, 1] \<and> contents Alarm s0 ''M1'' = [0, 1] \<and>
      acknowledge_alarm s0 ''M1'' ''A1'' ''op1'' 200 = (True, s1) \<and>
      resolve_alarm s1 ''M1'' ''A1'' ''op1'' 300 = Inr (True, s2) \<and>
      contents Active s2 ''M1'' = [1] \<and> contents Alarm s2 ''M1'' = [0, 1] \<and>
      acknowledged_by (alarm_heap s2 0) = Some ''op1'' \<and>
      resolved_at (alarm_heap s2 0) = Some 300 \<and>
      acknowledged_by (alarm_heap s2 1) = None) \<and>
   well_formed store_open \<and> unique_ids store_open \<and>
   0 \<in> set (contents Active store_open ''M1'') \<and> alarm_id (alarm_heap store_open 0) = ''A1'' \<and>
   0 \<in> set (contents Alarm store_open ''M1'') \<and>
   (\<exists>s1 s2. acknowledge_alarm store_open ''M1'' ''A1'' ''op1'' 200 = (True, s1) \<and>
      resolve_alarm s1 ''M1'' ''A1'' ''op1'' 300 = Inr (True, s2) \<and>
      contents Active s2 ''M1'' = [] \<and> contents Alarm s2 ''M1'' = [0] \<and>
      acknowledged_by (alarm_heap s2 0) = Some ''op1'' \<and>
      resolved_at (alarm_heap s2 0) = Some 300)"
proof -
  let ?i = "DataStore_init 2 two_alarms_heap"
  note e = two_alarms_heap_facts
  have hi: "alarm_heap ?i = alarm_heap two_alarms_heap" "max_history_size ?i = 2"
    by (simp_all add: DataStore_init_def)
  have h: "machine_id (alarm_heap ?i 0) = ''M1''" "alarm_id (alarm_heap ?i 0) = ''A1''"
    "resolved (alarm_heap ?i 0) = False" "machine_id (alarm_heap ?i 1) = ''M1''"
    "alarm_id (alarm_heap ?i 1) = ''A2''"
    by (simp_all add: hi e)
  have p: "machine_id (alarm_heap ?i 0) = ''M1'' \<and> alarm_id (alarm_heap ?i 0) = ''A1'' \<and>
      \<not> resolved (alarm_heap ?i 0) \<and>
      (\<forall>r \<in> set [1]. machine_id (alarm_heap ?i r) = ''M1'' \<longrightarrow> alarm_id (alarm_heap ?i r) \<noteq> ''A1'') \<and>
      int (length (filter (\<lambda>r. machine_id (alarm_heap ?i r) = ''M1'') [1])) < max_history_size ?i"
    by (simp add: hi e)
  note t = acknowledged_and_resolved_alarm_is_archived [OF wf_init unique_ids_init,
      where a = 0 and m = "''M1''" and aid = "''A1''" and u = "''op1''" and ?t1.0 = 200
        and ?t2.0 = 300 and rs = "[1]" and n1 = 2 and h1 = two_alarms_heap]
  from t [THEN conjunct2, rule_format, OF p]
  obtain s0 s1 s2 where r: "ingest add_alarm_data ?i [0, 1] = Inr s0"
    "acknowledge_alarm s0 ''M1'' ''A1'' ''op1'' 200 = (True, s1)"
    "resolve_alarm s1 ''M1'' ''A1'' ''op1'' 300 = Inr (True, s2)"
    "contents Active s2 ''M1'' = remove1 0 (contents Active s0 ''M1'')"
    "contents Alarm s2 ''M1'' = contents Alarm s0 ''M1''"
    "alarm_heap s2 = (alarm_heap ?i)(0 := (alarm_heap ?i 0)
       \<lparr>acknowledged := True, acknowledged_by := Some ''op1'', acknowledged_at := Some 200,
        resolved := True, resolved_at := Some 300\<rparr>)"
    by blast
  from two_alarms_ingested [of 2] r(1)
  have c0: "contents Active s0 ''M1'' = [0, 1]" "contents Alarm s0 ''M1'' = [0, 1]"
    by auto
  have c2: "contents Active s2 ''M1'' = [1]" "contents Alarm s2 ''M1'' = [0, 1]"
    by (simp_all add: r(4,5) c0)
  have f2: "acknowledged_by (alarm_heap s2 0) = Some ''op1''"
    "resolved_at (alarm_heap s2 0) = Some 300"
    by (simp_all add: r(6))
  have "alarm_heap s2 1 = alarm_heap two_alarms_heap 1"
    by (simp add: r(6) hi)
  then have g2: "acknowledged_by (alarm_heap s2 1) = None"
    by (simp only: e)
  from r(1) c0 r(2,3) c2 f2 g2
  have 1: "\<exists>s0 s1 s2. ingest add_alarm_data ?i [0, 1] = Inr s0 \<and>
      contents Active s0 ''M1'' = [0, 1] \<and> contents Alarm s0 ''M1'' = [0, 1] \<and>
      acknowledge_alarm s0 ''M1'' ''A1'' ''op1'' 200 = (True, s1) \<and>
      resolve_alarm s1 ''M1'' ''A1'' ''op1'' 300 = Inr (True, s2) \<and>
      contents Active s2 ''M1'' = [1] \<and> contents Alarm s2 ''M1'' = [0, 1] \<and>
      acknowledged_by (alarm_heap s2 0) = Some ''op1'' \<and>
      resolved_at (alarm_heap s2 0) = Some 300 \<and>
      acknowledged_by (alarm_heap s2 1) = None"
    by (intro exI [of _ s0] exI [of _ s1] exI [of _ s2] conjI)
  have q: "0 \<in> set (contents Active store_open ''M1'')" "alarm_id (alarm_heap store_open 0) = ''A1''"
    "0 \<in> set (contents Alarm store_open ''M1'')"
    by (simp_all add: store_open_facts example_heap_def alarm_A1_def)
  from acknowledged_and_resolved_alarm_is_archived [OF store_open_facts(1,2),
      where a = 0 and m = "''M1''" and aid = "''A1''" and u = "''op1''" and ?t1.0 = 200
        and ?t2.0 = 300 and rs = "[]", THEN conjunct1, rule_format, OF conjI [OF q(1,2)]]
  obtain s3 s4 where w: "acknowledge_alarm store_open ''M1'' ''A1'' ''op1'' 200 = (True, s3)"
    "resolve_alarm s3 ''M1'' ''A1'' ''op1'' 300 = Inr (True, s4)"
    "contents Active s4 ''M1'' = remove1 0 (contents Active store_open ''M1'')"
    "contents Alarm s4 ''M1'' = contents Alarm store_open ''M1''"
    "0 \<in> set (contents Alarm store_open ''M1'') \<longrightarrow>
       0 \<in> set (contents Alarm s4 ''M1'') \<and> acknowledged_by (alarm_heap s4 0) = Some ''op1'' \<and>
       resolved_at (alarm_heap s4 0) = Some 300"
    by blast
  have 2: "\<exists>s1 s2. acknowledge_alarm store_open ''M1'' ''A1'' ''op1'' 200 = (True, s1) \<and>
      resolve_alarm s1 ''M1'' ''A1'' ''op1'' 300 = Inr (True, s2) \<and>
      contents Active s2 ''M1'' = [] \<and> contents Alarm s2 ''M1'' = [0] \<and>
      acknowledged_by (alarm_heap s2 0) = Some ''op1'' \<and>
      resolved_at (alarm_heap s2 0) = Some 300"
    using w q(3) by (intro exI [of _ s3] exI [of _ s4]) (simp add: store_open_facts)
  from wf_init unique_ids_init h hi(2) 1 store_open_facts(1,2) q 2 show ?thesis
    by (intro conjI)
qed

text \<open>
  Claim C7 as stated fails. With capacity 0 the alarm \<open>A1\<close> of \<open>M1\<close> is active after
  its event and the history is empty; with capacity 1 the event of the alarm \<open>A2\<close>
  evicts the record of \<open>A1\<close> while \<open>A1\<close> stays active. In both stores
  \<open>acknowledge_alarm\<close> and \<open>resolve_alarm\<close> return \<open>True\<close> and the alarm leaves the
  active list, and the alarm history of \<open>M1\<close> holds no record of \<open>A1\<close>: it is empty,
  or its one record is that of \<open>A2\<close>, with no acknowledgment and no resolution time.
\<close>

theorem evicted_alarm_has_no_archived_record:
  "add_alarm_data (DataStore_init 0 example_heap) 0 = Inr unarchived_store \<and>
   contents Active unarchived_store ''M1'' = [0] \<and>
   alarm_id (alarm_heap unarchived_store 0) = ''A1'' \<and>
   contents Alarm unarchived_store ''M1'' = [] \<and>
   acknowledge_alarm unarchived_store ''M1'' ''A1'' ''op1'' 200
     = (True, acknowledged_by_op1 unarchived_store) \<and>
   resolve_alarm (acknowledged_by_op1 unarchived_store) ''M1'' ''A1'' ''op1'' 300
     = Inr (True, resolved_by_op1 (acknowledged_by_op1 unarchived_store)) \<and>
   contents Active (resolved_by_op1 (acknowledged_by_op1 unarchived_store)) ''M1'' = [] \<and>
   contents Alarm (resolved_by_op1 (acknowledged_by_op1 unarchived_store)) ''M1'' = [] \<and>
   ingest add_alarm_data (DataStore_init 1 two_alarms_heap) [0, 1] = Inr evicted_store \<and>
   contents Active evicted_store ''M1'' = [0, 1] \<and>
   alarm_id (alarm_heap evicted_store 0) = ''A1'' \<and>
   contents Alarm evicted_store ''M1'' = [1] \<and>
   acknowledge_alarm evicted_store ''M1'' ''A1'' ''op1'' 200
     = (True, acknowledged_by_op1 evicted_store) \<and>
   resolve_alarm (acknowledged_by_op1 evicted_store) ''M1'' ''A1'' ''op1'' 300
     = Inr (True, resolved_by_op1 (acknowledged_by_op1 evicted_store)) \<and>
   contents Active (resolved_by_op1 (acknowledged_by_op1 evicted_store)) ''M1'' = [1] \<and>
   contents Alarm (resolved_by_op1 (acknowledged_by_op1 evicted_store)) ''M1'' = [1] \<and>
   alarm_id (alarm_heap (resolved_by_op1 (acknowledged_by_op1 evicted_store)) 1) = ''A2'' \<and>
   acknowledged_by (alarm_heap (resolved_by_op1 (acknowledged_by_op1 evicted_store)) 1) = None \<and>
   resolved_at (alarm_heap (resolved_by_op1 (acknowledged_by_op1 evicted_store)) 1) = None"
proof -
  let ?i = "DataStore_init 0 example_heap"
  have hi: "alarm_heap ?i = alarm_heap example_heap" "max_history_size ?i = 0"
    by (simp_all add: DataStore_init_def)
  have ehi: "contents k ?i m = []" for k m
    by (simp add: contents_alt)
  have e0: "machine_id (alarm_heap example_heap 0) = ''M1''"
    "alarm_id (alarm_heap example_heap 0) = ''A1''" "\<not> resolved (alarm_heap example_heap 0)"
    by (simp_all add: example_heap_def alarm_A1_def)
  have ni: "0 \<le> max_history_size ?i" by (simp add: hi)
  from add_alarm_data_spec [OF wf_init ni, of 0]
  obtain s0 where s0: "add_alarm_data ?i 0 = Inr s0" "well_formed s0" "same_objects ?i s0"
    "\<And>k m'. contents k s0 m' =
        (if k = Alarm \<and> m' = machine_id (alarm_heap ?i 0)
         then append_maxlen (max_history_size ?i) (contents Alarm ?i (machine_id (alarm_heap ?i 0))) 0
         else if k = Active \<and> m' = machine_id (alarm_heap ?i 0)
         then active_after (alarm_heap ?i) 0 (contents Active ?i (machine_id (alarm_heap ?i 0)))
         else contents k ?i m')"
    by blast
  have u0: "unique_ids s0"
    using wf_init ni unique_ids_init s0(1) by (rule add_alarm_data_unique_ids)
  have h0: "alarm_heap s0 = alarm_heap example_heap"
    using s0(3) by (simp add: same_objects_def hi)
  have c0: "contents Active s0 ''M1'' = [0]" "contents Alarm s0 ''M1'' = []"
    by (simp_all add: s0(4) hi ehi e0 active_after_def append_maxlen_def)
  have a0: "0 \<in> set (contents Active s0 ''M1'')" "alarm_id (alarm_heap s0 0) = ''A1''"
    by (simp_all add: c0 h0 e0)
  from acknowledge_resolve_present [OF s0(2) u0 a0, of "''op1''" 200 300]
  obtain s1 s2 where r: "acknowledge_alarm s0 ''M1'' ''A1'' ''op1'' 200 = (True, s1)"
    "resolve_alarm s1 ''M1'' ''A1'' ''op1'' 300 = Inr (True, s2)"
    "contents Active s2 ''M1'' = remove1 0 (contents Active s0 ''M1'')"
    "contents Alarm s2 ''M1'' = contents Alarm s0 ''M1''"
    by blast
  have d0: "unarchived_store = s0"
    by (simp add: unarchived_store_def run_def after_def s0(1))
  have d1: "acknowledged_by_op1 s0 = s1"
    by (simp add: acknowledged_by_op1_def r(1))
  have d2: "resolved_by_op1 s1 = s2"
    by (simp add: resolved_by_op1_def after_result_def r(2))
  have x0: "contents Active s2 ''M1'' = []" "contents Alarm s2 ''M1'' = []"
    by (simp_all add: r(3,4) c0)
  let ?j = "DataStore_init 1 two_alarms_heap"
  note e = two_alarms_heap_facts
  from two_alarms_ingested [of 1]
  obtain sb where sb: "ingest add_alarm_data ?j [0, 1] = Inr sb" "well_formed sb" "unique_ids sb"
    "alarm_heap sb = alarm_heap two_alarms_heap" "contents Active sb ''M1'' = [0, 1]"
    "contents Alarm sb ''M1'' = [1]"
    by auto
  have ab: "0 \<in> set (contents Active sb ''M1'')" "alarm_id (alarm_heap sb 0) = ''A1''"
    by (simp_all add: sb(4,5) e)
  from acknowledge_resolve_present [OF sb(2,3) ab, of "''op1''" 200 300]
  obtain sc sd where w: "acknowledge_alarm sb ''M1'' ''A1'' ''op1'' 200 = (True, sc)"
    "resolve_alarm sc ''M1'' ''A1'' ''op1'' 300 = Inr (True, sd)"
    "contents Active sd ''M1'' = remove1 0 (contents Active sb ''M1'')"
    "contents Alarm sd ''M1'' = contents Alarm sb ''M1''"
    "alarm_heap sd = (alarm_heap sb)(0 := (alarm_heap sb 0)
       \<lparr>acknowledged := True, acknowledged_by := Some ''op1'', acknowledged_at := Some 200,
        resolved := True, resolved_at := Some 300\<rparr>)"
    by blast
  have x: "contents Active sd ''M1'' = [1]" "contents Alarm sd ''M1'' = [1]"
    by (simp_all add: w(3,4) sb(5,6))
  have "alarm_heap sd 1 = alarm_heap two_alarms_heap 1"
    by (simp add: w(5) sb(4))
  then have y: "alarm_id (alarm_heap sd 1) = ''A2''" "acknowledged_by (alarm_heap sd 1) = None"
    "resolved_at (alarm_heap sd 1) = None"
    by (simp_all only: e)
  have "ingest add_alarm_data ?j [0, 1] = Inr evicted_store"
    using sb(1) by (auto simp: evicted_store_def run_def after_def split: sum.splits)
  then have db: "evicted_store = sb"
    using sb(1) by simp
  have dc: "acknowledged_by_op1 sb = sc"
    by (simp add: acknowledged_by_op1_def w(1))
  have dd: "resolved_by_op1 sc = sd"
    by (simp add: resolved_by_op1_def after_result_def w(2))
  from s0(1) c0(1) a0(2) c0(2) r(1,2) x0 sb(1,5) ab(2) sb(6) w(1,2) x y
  show ?thesis
    unfolding d0 d1 d2 db dc dd by (intro conjI)
qed

end
